theory Spec2Isabelle
  imports Complex_Main "HOL-Library.Multiset"
begin

section \<open>Exceptions\<close>

text \<open>
  Every \<^verbatim>\<open>try: ... except Exception as exc:\<close> of the crawler catches the class
  \<^verbatim>\<open>Exception\<close> and uses the exception only through \<^verbatim>\<open>str(exc)\<close>. An exception is
  therefore modelled by its message, and a call that may raise returns a value of
  type \<open>exn + 'a\<close>: \<open>Inl\<close> the exception raised, \<open>Inr\<close> the value returned. Signals
  that are not instances of \<^verbatim>\<open>Exception\<close> (task cancellation, interpreter exit) are
  outside this model.
\<close>

datatype exn = Exception string

fun str_exc :: "exn \<Rightarrow> string" where
  "str_exc (Exception msg) = msg"

section \<open>Strings\<close>

text \<open>
  A Python \<^verbatim>\<open>str\<close> is a \<open>string\<close>, a list of characters; a character stands for the
  code point of the same number, so the model covers the code points below 256.
  \<^verbatim>\<open>str.strip()\<close> without argument removes leading and trailing white space; the
  white-space code points below 256 are 9 to 13, 28 to 32, 133 and 160.
\<close>

definition isspace :: "char \<Rightarrow> bool" where
  "isspace c \<longleftrightarrow> (of_char c :: nat) \<in> {9, 10, 11, 12, 13, 28, 29, 30, 31, 32, 133, 160}"

definition lstrip :: "string \<Rightarrow> string" where
  "lstrip s = dropWhile isspace s"

definition rstrip :: "string \<Rightarrow> string" where
  "rstrip s = rev (dropWhile isspace (rev s))"

definition strip :: "string \<Rightarrow> string" where
  "strip s = rstrip (lstrip s)"

text \<open>\<^verbatim>\<open>s.startswith(p)\<close>.\<close>

definition startswith :: "string \<Rightarrow> string \<Rightarrow> bool" where
  "startswith s p \<longleftrightarrow> take (length p) s = p"

section \<open>URLs: \<^verbatim>\<open>urllib.parse\<close> of the standard library\<close>

text \<open>
  \<^verbatim>\<open>normalize_url\<close> is built from \<^verbatim>\<open>urlparse\<close>, \<^verbatim>\<open>parse_qs\<close>, \<^verbatim>\<open>urlencode\<close> and
  \<^verbatim>\<open>urlunparse\<close>. Their splitting of a URL into components is modelled here step by
  step after CPython 3.11. The parts that reach further into the library are taken as
  parameters, so that every theorem with a free \<open>lib\<close> holds for whatever they compute:
  the two validity checks of \<^verbatim>\<open>urlsplit\<close> that may raise \<^verbatim>\<open>ValueError\<close>
  (\<open>True\<close> when the check passes), percent-decoding and percent-encoding, and the
  digest \<^verbatim>\<open>hashlib.sha256(url.encode()).hexdigest()\<close>.
\<close>

record pylib =
  check_bracketed_host :: "string \<Rightarrow> bool"
  checknetloc :: "string \<Rightarrow> bool"
  unquote_plus :: "string \<Rightarrow> string"
  quote_plus :: "string \<Rightarrow> string"
  sha256_hexdigest :: "string \<Rightarrow> string"

definition isascii :: "char \<Rightarrow> bool" where
  "isascii c \<longleftrightarrow> (of_char c :: nat) < 128"

definition ascii_alpha :: "char \<Rightarrow> bool" where
  "ascii_alpha c \<longleftrightarrow> (let n = of_char c :: nat in (65 \<le> n \<and> n \<le> 90) \<or> (97 \<le> n \<and> n \<le> 122))"

definition ascii_digit :: "char \<Rightarrow> bool" where
  "ascii_digit c \<longleftrightarrow> (let n = of_char c :: nat in 48 \<le> n \<and> n \<le> 57)"

text \<open>\<^verbatim>\<open>scheme_chars\<close>: the ASCII letters and digits and \<^verbatim>\<open>+-.\<close>\<close>

definition scheme_char :: "char \<Rightarrow> bool" where
  "scheme_char c \<longleftrightarrow> ascii_alpha c \<or> ascii_digit c \<or> c \<in> {CHR ''+'', CHR ''-'', CHR ''.''}"

text \<open>
  \<^verbatim>\<open>str.lower()\<close> on the code points below 256: the ASCII capitals and the capitals
  192 to 222 (without the multiplication sign 215) move up by 32.
\<close>

definition lower_char :: "char \<Rightarrow> char" where
  "lower_char c =
     (let n = of_char c :: nat
      in if (65 \<le> n \<and> n \<le> 90) \<or> (192 \<le> n \<and> n \<le> 222 \<and> n \<noteq> 215) then char_of (n + 32) else c)"

definition lower :: "string \<Rightarrow> string" where
  "lower s = map lower_char s"

text \<open>\<^verbatim>\<open>s.split(c, 1)\<close> for a \<open>c\<close> that occurs in \<open>s\<close>: the text before and after its
  first occurrence.\<close>

definition split1 :: "char \<Rightarrow> string \<Rightarrow> string \<times> string" where
  "split1 c s = (takeWhile (\<lambda>x. x \<noteq> c) s, drop 1 (dropWhile (\<lambda>x. x \<noteq> c) s))"

text \<open>
  The scheme of \<^verbatim>\<open>urlsplit\<close>: when the text before the first colon is not empty,
  starts with an ASCII letter and consists of scheme characters, it is the scheme, in
  lower case, and the URL goes on after the colon.
\<close>

definition split_scheme :: "string \<Rightarrow> string \<times> string" where
  "split_scheme u =
     (let pre = takeWhile (\<lambda>x. x \<noteq> CHR '':'') u
      in if CHR '':'' \<in> set u \<and> pre \<noteq> [] \<and> ascii_alpha (hd u) \<and> list_all scheme_char pre
         then (lower pre, drop (length pre + 1) u)
         else ([], u))"

text \<open>\<^verbatim>\<open>_splitnetloc(url, 2)\<close> on the text after the two slashes: up to the first of
  \<^verbatim>\<open>/?#\<close>.\<close>

definition netloc_char :: "char \<Rightarrow> bool" where
  "netloc_char c \<longleftrightarrow> c \<notin> {CHR ''/'', CHR ''?'', CHR ''#''}"

definition splitnetloc :: "string \<Rightarrow> string \<times> string" where
  "splitnetloc u = (takeWhile netloc_char u, dropWhile netloc_char u)"

text \<open>\<^verbatim>\<open>netloc.partition('[')[2].partition(']')[0]\<close>\<close>

definition bracketed_host :: "string \<Rightarrow> string" where
  "bracketed_host nl =
     takeWhile (\<lambda>x. x \<noteq> CHR '']'') (drop 1 (dropWhile (\<lambda>x. x \<noteq> CHR ''['') nl))"

text \<open>
  \<^verbatim>\<open>urlsplit(url)\<close>: leading control characters and spaces (code points up to 32) are
  dropped, tab, carriage return and line feed are removed everywhere, then scheme,
  netloc, fragment and query are split off in this order. The result is the tuple
  (scheme, netloc, path, query, fragment), or the \<^verbatim>\<open>ValueError\<close> raised.
\<close>

definition urlsplit ::
  "pylib \<Rightarrow> string \<Rightarrow> exn + string \<times> string \<times> string \<times> string \<times> string" where
  "urlsplit lib url0 =
     (let u = dropWhile (\<lambda>c. (of_char c :: nat) \<le> 32) url0;
          u = filter (\<lambda>c. (of_char c :: nat) \<notin> {9, 13, 10}) u;
          (scheme, u) = split_scheme u;
          (nl, u) = (if take 2 u = ''//'' then splitnetloc (drop 2 u) else ([], u))
      in if (CHR ''['' \<in> set nl \<and> CHR '']'' \<notin> set nl) \<or> (CHR '']'' \<in> set nl \<and> CHR ''['' \<notin> set nl)
         then Inl (Exception ''Invalid IPv6 URL'')
         else if CHR ''['' \<in> set nl \<and> CHR '']'' \<in> set nl
                 \<and> \<not> check_bracketed_host lib (bracketed_host nl)
         then Inl (Exception ''invalid bracketed host'')
         else
           let (u, frag) = (if CHR ''#'' \<in> set u then split1 (CHR ''#'') u else (u, []));
               (u, q) = (if CHR ''?'' \<in> set u then split1 (CHR ''?'') u else (u, []))
           in if nl \<noteq> [] \<and> \<not> list_all isascii nl \<and> \<not> checknetloc lib nl
              then Inl (Exception ''netloc contains invalid characters under NFKC normalization'')
              else Inr (scheme, nl, u, q, frag))"

record ParseResult =
  scheme :: string
  netloc :: string
  path :: string
  params :: string
  query :: string
  fragment :: string

definition uses_params :: "string list" where
  "uses_params = ['''', ''ftp'', ''hdl'', ''prospero'', ''http'', ''imap'', ''https'', ''shttp'',
     ''rtsp'', ''rtsps'', ''rtspu'', ''sip'', ''sips'', ''mms'', ''sftp'', ''tel'']"

text \<open>
  \<^verbatim>\<open>_splitparams\<close>: the parameters start at the first semicolon of the last path
  segment (of the whole text when it has no slash).
\<close>

definition splitparams :: "string \<Rightarrow> string \<times> string" where
  "splitparams u =
     (if CHR ''/'' \<in> set u
      then let seg = rev (takeWhile (\<lambda>x. x \<noteq> CHR ''/'') (rev u));
               before = take (length u - length seg) u
           in if CHR '';'' \<in> set seg
              then (before @ fst (split1 (CHR '';'') seg), snd (split1 (CHR '';'') seg))
              else (u, [])
      else split1 (CHR '';'') u)"

definition urlparse :: "pylib \<Rightarrow> string \<Rightarrow> exn + ParseResult" where
  "urlparse lib u =
     (case urlsplit lib u of
        Inl exc \<Rightarrow> Inl exc
      | Inr (sch, nl, p, q, frag) \<Rightarrow>
          let (p, ps) = (if sch \<in> set uses_params \<and> CHR '';'' \<in> set p then splitparams p else (p, []))
          in Inr \<lparr>scheme = sch, netloc = nl, path = p, params = ps, query = q, fragment = frag\<rparr>)"

definition uses_netloc :: "string list" where
  "uses_netloc = ['''', ''ftp'', ''http'', ''gopher'', ''nntp'', ''telnet'', ''imap'', ''wais'',
     ''file'', ''mms'', ''https'', ''shttp'', ''snews'', ''prospero'', ''rtsp'', ''rtsps'',
     ''rtspu'', ''rsync'', ''svn'', ''svn+ssh'', ''sftp'', ''nfs'', ''git'', ''git+ssh'', ''ws'', ''wss'']"

text \<open>\<^verbatim>\<open>urlunparse((scheme, netloc, url, params, query, fragment))\<close>, through
  \<^verbatim>\<open>urlunsplit\<close>.\<close>

definition urlunparse :: "string \<times> string \<times> string \<times> string \<times> string \<times> string \<Rightarrow> string" where
  "urlunparse c =
     (case c of (sch, nl, u, ps, q, frag) \<Rightarrow>
        let u = (if ps \<noteq> [] then u @ '';'' @ ps else u);
            u = (if nl \<noteq> [] \<or> (sch \<noteq> [] \<and> sch \<in> set uses_netloc) \<or> take 2 u = ''//''
                 then ''//'' @ nl @ (if u \<noteq> [] \<and> take 1 u \<noteq> ''/'' then ''/'' @ u else u)
                 else u);
            u = (if sch \<noteq> [] then sch @ '':'' @ u else u);
            u = (if q \<noteq> [] then u @ ''?'' @ q else u);
            u = (if frag \<noteq> [] then u @ ''#'' @ frag else u)
        in u)"

text \<open>\<^verbatim>\<open>qs.split('&')\<close>: the pieces between the separators, empty ones included.\<close>

fun split_on :: "char \<Rightarrow> string \<Rightarrow> string list" where
  "split_on c [] = [[]]"
| "split_on c (x # xs) =
     (case split_on c xs of
        [] \<Rightarrow> [[x]]
      | piece # pieces \<Rightarrow> if x = c then [] # piece # pieces else (x # piece) # pieces)"

text \<open>
  \<^verbatim>\<open>parse_qsl(qs, keep_blank_values=True)\<close>: every non-empty piece gives a pair, its
  name the text before the first \<^verbatim>\<open>=\<close> and its value the text after it (empty when
  there is none), both decoded.
\<close>

definition parse_qsl :: "pylib \<Rightarrow> string \<Rightarrow> (string \<times> string) list" where
  "parse_qsl lib qs =
     (if qs = [] then []
      else map (\<lambda>name_value.
                  (unquote_plus lib (takeWhile (\<lambda>x. x \<noteq> CHR ''='') name_value),
                   unquote_plus lib (drop 1 (dropWhile (\<lambda>x. x \<noteq> CHR ''='') name_value))))
             (filter (\<lambda>name_value. name_value \<noteq> []) (split_on (CHR ''&'') qs)))"

text \<open>
  \<^verbatim>\<open>parse_qs\<close> collects the pairs into a dict from names to lists of values. A Python
  dict keeps its keys in the order of their first insertion: it is an association
  list with one entry for each key.
\<close>

fun dict_append :: "(string \<times> string list) list \<Rightarrow> string \<Rightarrow> string \<Rightarrow> (string \<times> string list) list" where
  "dict_append [] name v = [(name, [v])]"
| "dict_append ((k, vs) # d) name v =
     (if k = name then (k, vs @ [v]) # d else (k, vs) # dict_append d name v)"

definition parse_qs :: "pylib \<Rightarrow> string \<Rightarrow> (string \<times> string list) list" where
  "parse_qs lib qs = foldl (\<lambda>d (name, v). dict_append d name v) [] (parse_qsl lib qs)"

text \<open>\<^verbatim>\<open>'&'.join(l)\<close>\<close>

fun join :: "string \<Rightarrow> string list \<Rightarrow> string" where
  "join sep [] = []"
| "join sep [x] = x"
| "join sep (x # y # ys) = x @ sep @ join sep (y # ys)"

text \<open>\<^verbatim>\<open>urlencode(d, doseq=True)\<close> for a dict of lists: one \<^verbatim>\<open>key=value\<close> for every
  value of every key, in the order of the dict.\<close>

definition dict_pairs :: "(string \<times> string list) list \<Rightarrow> (string \<times> string) list" where
  "dict_pairs d = concat (map (\<lambda>(k, vs). map (\<lambda>v. (k, v)) vs) d)"

definition urlencode :: "pylib \<Rightarrow> (string \<times> string list) list \<Rightarrow> string" where
  "urlencode lib d = join ''&'' (map (\<lambda>(k, v). quote_plus lib k @ ''='' @ quote_plus lib v) (dict_pairs d))"

subsection \<open>The library on plain input\<close>

text \<open>
  For the worked examples the parameters are instantiated. Percent-encoding is
  \<^verbatim>\<open>quote_plus\<close> on the code points below 256: letters, digits and \<^verbatim>\<open>_.-~\<close> stay, a
  space becomes \<^verbatim>\<open>+\<close>, every other character becomes the escapes of its UTF-8 bytes.
  Percent-decoding is \<^verbatim>\<open>unquote_plus\<close> on text whose escapes are below \<^verbatim>\<open>%80\<close>:
  \<^verbatim>\<open>+\<close> becomes a space and an escape of two hexadecimal digits becomes its
  character (higher escapes, which Python decodes as UTF-8, are left as they are and
  are outside the examples). The two validity checks pass, as they do for a netloc
  without brackets and in ASCII. The digest is the URL itself: different URLs have
  different digests, as is expected of SHA-256.
\<close>

definition hexval :: "char \<Rightarrow> nat option" where
  "hexval c =
     (let n = of_char c :: nat
      in if 48 \<le> n \<and> n \<le> 57 then Some (n - 48)
         else if 65 \<le> n \<and> n \<le> 70 then Some (n - 55)
         else if 97 \<le> n \<and> n \<le> 102 then Some (n - 87)
         else None)"

fun unquote :: "string \<Rightarrow> string" where
  "unquote (c # h1 # h2 # rest) =
     (if c = CHR ''%''
      then (case (hexval h1, hexval h2) of
              (Some a, Some b) \<Rightarrow>
                if 16 * a + b < 128 then char_of (16 * a + b) # unquote rest
                else c # unquote (h1 # h2 # rest)
            | _ \<Rightarrow> c # unquote (h1 # h2 # rest))
      else c # unquote (h1 # h2 # rest))"
| "unquote cs = cs"

definition quote_byte :: "nat \<Rightarrow> string" where
  "quote_byte n = [CHR ''%'', ''0123456789ABCDEF'' ! (n div 16), ''0123456789ABCDEF'' ! (n mod 16)]"

definition quote_plus_char :: "char \<Rightarrow> string" where
  "quote_plus_char c =
     (let n = of_char c :: nat
      in if ascii_alpha c \<or> ascii_digit c \<or> c \<in> {CHR ''_'', CHR ''.'', CHR ''-'', CHR ''~''} then [c]
         else if c = CHR '' '' then ''+''
         else if n < 128 then quote_byte n
         else quote_byte (192 + n div 64) @ quote_byte (128 + n mod 64))"

definition example_lib :: pylib where
  "example_lib =
     \<lparr>check_bracketed_host = (\<lambda>h. True),
      checknetloc = (\<lambda>nl. True),
      unquote_plus = (\<lambda>s. unquote (map (\<lambda>c. if c = CHR ''+'' then CHR '' '' else c) s)),
      quote_plus = (\<lambda>s. concat (map quote_plus_char s)),
      sha256_hexdigest = (\<lambda>u. u)\<rparr>"

section \<open>URL frontier: \<^verbatim>\<open>app/frontier.py\<close>\<close>

text \<open>
  \<^verbatim>\<open>_STRIP_PARAMS = re.compile(r"^(utm_|fbclid|gclid|mc_|ref|source|campaign)",
  re.IGNORECASE)\<close> and \<^verbatim>\<open>_STRIP_PARAMS.match(k)\<close>: the key starts with one of the
  prefixes, whatever the case of its letters.
\<close>

definition STRIP_PARAMS :: "string list" where
  "STRIP_PARAMS = [''utm_'', ''fbclid'', ''gclid'', ''mc_'', ''ref'', ''source'', ''campaign'']"

definition STRIP_PARAMS_match :: "string \<Rightarrow> bool" where
  "STRIP_PARAMS_match k \<longleftrightarrow> list_ex (startswith (lower k)) STRIP_PARAMS"

text \<open>\<^verbatim>\<open>re.sub(r"/+", "/", path)\<close>: every run of slashes becomes one slash.\<close>

fun collapse_slashes :: "string \<Rightarrow> string" where
  "collapse_slashes (a # b # cs) =
     (if a = CHR ''/'' \<and> b = CHR ''/'' then collapse_slashes (b # cs)
      else a # collapse_slashes (b # cs))"
| "collapse_slashes cs = cs"

text \<open>The branch \<^verbatim>\<open>if parsed.query:\<close> of \<^verbatim>\<open>normalize_url\<close>.\<close>

definition filtered :: "pylib \<Rightarrow> string \<Rightarrow> (string \<times> string list) list" where
  "filtered lib q = filter (\<lambda>(k, v). \<not> STRIP_PARAMS_match k) (parse_qs lib q)"

definition normalize_query :: "pylib \<Rightarrow> string \<Rightarrow> string" where
  "normalize_query lib q = urlencode lib (filtered lib q)"

text \<open>
  The query parameters as the specification words them: the parameters whose key
  matches no tracking prefix, with their values, in their original order.
\<close>

definition kept_in_order :: "pylib \<Rightarrow> string \<Rightarrow> (string \<times> string) list" where
  "kept_in_order lib q = filter (\<lambda>(k, v). \<not> STRIP_PARAMS_match k) (parse_qsl lib q)"

text \<open>
  A list of pairs grouped by key: the keys in the order of their first occurrence, the
  values of one key in their original order.
\<close>

fun first_occurrences :: "'a list \<Rightarrow> 'a list" where
  "first_occurrences [] = []"
| "first_occurrences (x # xs) = x # filter (\<lambda>y. y \<noteq> x) (first_occurrences xs)"

definition values_of :: "'k \<Rightarrow> ('k \<times> 'v) list \<Rightarrow> 'v list" where
  "values_of k ps = map snd (filter (\<lambda>p. fst p = k) ps)"

definition grouped_by_key :: "('k \<times> 'v) list \<Rightarrow> ('k \<times> 'v) list" where
  "grouped_by_key ps =
     concat (map (\<lambda>k. map (\<lambda>v. (k, v)) (values_of k ps)) (first_occurrences (map fst ps)))"

text \<open>\<^verbatim>\<open>normalize_url\<close>; \<open>None\<close> is Python's \<^verbatim>\<open>None\<close>.\<close>

definition normalize_url :: "pylib \<Rightarrow> string \<Rightarrow> string option" where
  "normalize_url lib url0 =
     (case urlparse lib (strip url0) of
        Inl exc \<Rightarrow> None
      | Inr parsed \<Rightarrow>
          if scheme parsed \<notin> {''http'', ''https''} then None
          else if netloc parsed = [] then None
          else
            let sch = lower (scheme parsed);
                nl = lower (netloc parsed);
                p = collapse_slashes (if path parsed = [] then ''/'' else path parsed);
                p = (if p = [] then ''/'' else p);
                q = (if query parsed \<noteq> [] then normalize_query lib (query parsed) else [])
            in Some (urlunparse (sch, nl, p, params parsed, q, [])))"

text \<open>\<^verbatim>\<open>_hash\<close>\<close>

definition hash :: "pylib \<Rightarrow> string \<Rightarrow> string" where
  "hash lib u = sha256_hexdigest lib u"

text \<open>
  \<^verbatim>\<open>QueueEntry\<close> is a dataclass with \<^verbatim>\<open>order=True\<close> whose field \<^verbatim>\<open>url\<close> has
  \<^verbatim>\<open>compare=False\<close>: two entries are compared by their depths alone. Its fields
  \<^verbatim>\<open>depth\<close> and \<^verbatim>\<open>url\<close> are \<open>entry_depth\<close> and \<open>entry_url\<close> here.
\<close>

datatype QueueEntry = QueueEntry (entry_depth: int) (entry_url: string)

definition entry_lt :: "QueueEntry \<Rightarrow> QueueEntry \<Rightarrow> bool" where
  "entry_lt a b \<longleftrightarrow> entry_depth a < entry_depth b"

subsection \<open>\<^verbatim>\<open>heapq\<close> of the standard library\<close>

text \<open>
  The queue is a Python list kept as a binary heap by \<^verbatim>\<open>heapq.heappush\<close> and
  \<^verbatim>\<open>heapq.heappop\<close>, modelled after CPython's \<^verbatim>\<open>heapq.py\<close>. The two loops
  \<^verbatim>\<open>_siftdown\<close> and \<^verbatim>\<open>_siftup\<close> are called with positions inside the list only.
\<close>

text \<open>\<^verbatim>\<open>(pos - 1) >> 1\<close>\<close>

definition parent_pos :: "nat \<Rightarrow> nat" where
  "parent_pos pos = (pos - 1) div 2"

lemma parent_pos_less: "0 < pos \<Longrightarrow> parent_pos pos < pos"
  unfolding parent_pos_def by arith

function siftdown_loop :: "QueueEntry list \<Rightarrow> nat \<Rightarrow> nat \<Rightarrow> QueueEntry \<Rightarrow> QueueEntry list" where
  "siftdown_loop heap startpos pos newitem =
     (if pos > startpos
      then let parentpos = parent_pos pos;
               parent = heap ! parentpos
           in if entry_lt newitem parent
              then siftdown_loop (heap[pos := parent]) startpos parentpos newitem
              else heap[pos := newitem]
      else heap[pos := newitem])"
  by pat_completeness auto
termination
  by (relation "measure (\<lambda>(heap, startpos, pos, newitem). pos)") (auto intro: parent_pos_less)

declare siftdown_loop.simps [simp del]

definition siftdown :: "QueueEntry list \<Rightarrow> nat \<Rightarrow> nat \<Rightarrow> QueueEntry list" where
  "siftdown heap startpos pos = siftdown_loop heap startpos pos (heap ! pos)"

function siftup_loop :: "QueueEntry list \<Rightarrow> nat \<Rightarrow> nat \<Rightarrow> nat \<Rightarrow> QueueEntry list \<times> nat" where
  "siftup_loop heap endpos pos childpos =
     (if childpos < endpos
      then let rightpos = childpos + 1;
               childpos = (if rightpos < endpos \<and> \<not> entry_lt (heap ! childpos) (heap ! rightpos)
                           then rightpos else childpos)
           in siftup_loop (heap[pos := heap ! childpos]) endpos childpos (2 * childpos + 1)
      else (heap, pos))"
  by pat_completeness auto
termination
  by (relation "measure (\<lambda>(heap, endpos, pos, childpos). endpos - childpos)") auto

declare siftup_loop.simps [simp del]

definition siftup :: "QueueEntry list \<Rightarrow> nat \<Rightarrow> QueueEntry list" where
  "siftup heap pos =
     (let endpos = length heap;
          startpos = pos;
          newitem = heap ! pos;
          (heap, pos) = siftup_loop heap endpos pos (2 * pos + 1)
      in siftdown (heap[pos := newitem]) startpos pos)"

definition heappush :: "QueueEntry list \<Rightarrow> QueueEntry \<Rightarrow> QueueEntry list" where
  "heappush heap item = siftdown (heap @ [item]) 0 (length heap)"

text \<open>\<^verbatim>\<open>heappop\<close> returns the item and leaves the shorter heap; on an empty list
  \<^verbatim>\<open>heap.pop()\<close> raises \<^verbatim>\<open>IndexError\<close>, which is \<open>None\<close> here.\<close>

definition heappop :: "QueueEntry list \<Rightarrow> (QueueEntry \<times> QueueEntry list) option" where
  "heappop heap =
     (if heap = [] then None
      else let lastelt = last heap;
               heap = butlast heap
           in if heap \<noteq> []
              then let returnitem = heap ! 0
                   in Some (returnitem, siftup (heap[0 := lastelt]) 0)
              else Some (lastelt, heap))"

text \<open>
  The heap condition on the list: no entry is shallower than its parent.
\<close>

definition heap_ok :: "QueueEntry list \<Rightarrow> bool" where
  "heap_ok h \<longleftrightarrow>
     (\<forall>i. 0 < i \<and> i < length h \<longrightarrow> entry_depth (h ! (parent_pos i)) \<le> entry_depth (h ! i))"

subsection \<open>\<^verbatim>\<open>URLFrontier\<close>\<close>

text \<open>The fields \<^verbatim>\<open>_queue\<close>, \<^verbatim>\<open>_visited\<close> and \<^verbatim>\<open>_enqueued\<close> are \<open>queue\<close>, \<open>visited\<close>
  and \<open>enqueued\<close>.\<close>

record URLFrontier =
  allowed_domains :: "string set"
  max_depth :: int
  queue :: "QueueEntry list"
  visited :: "string set"
  enqueued :: "string set"

definition URLFrontier_init :: "string list \<Rightarrow> int \<Rightarrow> URLFrontier" where
  "URLFrontier_init domains depth_limit =
     \<lparr>allowed_domains = lower ` set domains, max_depth = depth_limit, queue = [],
      visited = {}, enqueued = {}\<rparr>"

text \<open>\<^verbatim>\<open>_domain_allowed\<close>; the \<^verbatim>\<open>ValueError\<close> of \<^verbatim>\<open>urlparse\<close> would pass through.\<close>

definition domain_allowed :: "pylib \<Rightarrow> URLFrontier \<Rightarrow> string \<Rightarrow> exn + bool" where
  "domain_allowed lib self u =
     (case urlparse lib u of
        Inl exc \<Rightarrow> Inl exc
      | Inr parsed \<Rightarrow>
          let domain = lower (netloc parsed);
              bare = (if startswith domain ''www.'' then drop 4 domain else domain)
          in Inr (domain \<in> allowed_domains self \<or> bare \<in> allowed_domains self))"

text \<open>\<^verbatim>\<open>add_url\<close>: what it returns (or raises) and the frontier afterwards.\<close>

definition add_url :: "pylib \<Rightarrow> URLFrontier \<Rightarrow> string \<Rightarrow> int \<Rightarrow> (exn + bool) \<times> URLFrontier" where
  "add_url lib self u depth =
     (case normalize_url lib u of
        None \<Rightarrow> (Inr False, self)
      | Some normalized \<Rightarrow>
          let url_hash = hash lib normalized
          in if depth > max_depth self then (Inr False, self)
             else if url_hash \<in> visited self \<or> url_hash \<in> enqueued self then (Inr False, self)
             else (case domain_allowed lib self normalized of
                     Inl exc \<Rightarrow> (Inl exc, self)
                   | Inr allowed \<Rightarrow>
                       if \<not> allowed then (Inr False, self)
                       else (Inr True,
                             self\<lparr>queue := heappush (queue self) (QueueEntry depth normalized),
                                  enqueued := insert url_hash (enqueued self)\<rparr>)))"

text \<open>The heap operations keep the length of the list, up to the item pushed or
  popped; the loop of \<^verbatim>\<open>get_next\<close> ends because every pass pops an entry.\<close>

lemma length_siftdown_loop [simp]:
  "length (siftdown_loop heap startpos pos newitem) = length heap"
  by (induction heap startpos pos newitem rule: siftdown_loop.induct)
     (subst siftdown_loop.simps, simp add: Let_def)

lemma length_siftdown [simp]: "length (siftdown heap startpos pos) = length heap"
  by (simp add: siftdown_def)

lemma length_siftup_loop [simp]:
  "length (fst (siftup_loop heap endpos pos childpos)) = length heap"
  by (induction heap endpos pos childpos rule: siftup_loop.induct)
     (subst siftup_loop.simps, simp add: Let_def)

lemma length_siftup [simp]: "length (siftup heap pos) = length heap"
  by (simp add: siftup_def Let_def split: prod.splits)
     (metis fst_conv length_siftup_loop)

lemma length_heappush [simp]: "length (heappush heap item) = Suc (length heap)"
  by (simp add: heappush_def)

lemma heappop_length:
  assumes "heappop heap = Some (entry, heap')"
  shows "Suc (length heap') = length heap"
proof (cases heap rule: rev_cases)
  case Nil
  with assms show ?thesis by (simp add: heappop_def)
next
  case (snoc front lastelt)
  with assms show ?thesis by (auto simp: heappop_def Let_def split: if_splits)
qed

text \<open>The loop of \<^verbatim>\<open>get_next\<close> on the queue; the visited set does not change in it.\<close>

function get_next_loop ::
  "pylib \<Rightarrow> string set \<Rightarrow> QueueEntry list \<Rightarrow> (string \<times> int) option \<times> QueueEntry list" where
  "get_next_loop lib vis q =
     (if q \<noteq> []
      then (case heappop q of
              None \<Rightarrow> (None, q)
            | Some (entry, q') \<Rightarrow>
                if hash lib (entry_url entry) \<in> vis then get_next_loop lib vis q'
                else (Some (entry_url entry, entry_depth entry), q'))
      else (None, q))"
  by pat_completeness auto
termination
  by (relation "measure (\<lambda>(lib, vis, q). length q)") (auto dest: heappop_length)

declare get_next_loop.simps [simp del]

definition get_next :: "pylib \<Rightarrow> URLFrontier \<Rightarrow> (string \<times> int) option \<times> URLFrontier" where
  "get_next lib self =
     (case get_next_loop lib (visited self) (queue self) of
        (r, q) \<Rightarrow> (r, self\<lparr>queue := q\<rparr>))"

text \<open>\<^verbatim>\<open>normalize_url(url) or url\<close>\<close>

definition norm_or_raw :: "pylib \<Rightarrow> string \<Rightarrow> string" where
  "norm_or_raw lib u = (case normalize_url lib u of None \<Rightarrow> u | Some n \<Rightarrow> if n = [] then u else n)"

definition mark_visited :: "pylib \<Rightarrow> URLFrontier \<Rightarrow> string \<Rightarrow> URLFrontier" where
  "mark_visited lib self u = self\<lparr>visited := insert (hash lib (norm_or_raw lib u)) (visited self)\<rparr>"

definition is_visited :: "pylib \<Rightarrow> URLFrontier \<Rightarrow> string \<Rightarrow> bool" where
  "is_visited lib self u \<longleftrightarrow> hash lib (norm_or_raw lib u) \<in> visited self"

subsection \<open>Sequences of calls\<close>

text \<open>
  A call of one of the three methods that change a frontier, what it returned (or
  raised), and the run of a sequence of calls: for each call the frontier before, the
  call, its outcome and the frontier after.
\<close>

datatype frontier_call = Add_url string int | Get_next | Mark_visited string

datatype call_outcome = Added "exn + bool" | Got "(string \<times> int) option" | Marked

fun call :: "pylib \<Rightarrow> URLFrontier \<Rightarrow> frontier_call \<Rightarrow> call_outcome \<times> URLFrontier" where
  "call lib self (Add_url u depth) = (case add_url lib self u depth of (r, self') \<Rightarrow> (Added r, self'))"
| "call lib self Get_next = (case get_next lib self of (r, self') \<Rightarrow> (Got r, self'))"
| "call lib self (Mark_visited u) = (Marked, mark_visited lib self u)"

fun calls ::
  "pylib \<Rightarrow> URLFrontier \<Rightarrow> frontier_call list
    \<Rightarrow> (URLFrontier \<times> frontier_call \<times> call_outcome \<times> URLFrontier) list" where
  "calls lib self [] = []"
| "calls lib self (c # cs) =
     (case call lib self c of (out, self') \<Rightarrow> (self, c, out, self') # calls lib self' cs)"

text \<open>
  The entries returned by the \<^verbatim>\<open>get_next\<close> calls of a run, in the order returned, and
  their depths.
\<close>

fun returned ::
  "(URLFrontier \<times> frontier_call \<times> call_outcome \<times> URLFrontier) list \<Rightarrow> (string \<times> int) list" where
  "returned [] = []"
| "returned ((s, c, Got (Some (u, d)), s') # rest) = (u, d) # returned rest"
| "returned (x # rest) = returned rest"

definition returned_depths ::
  "(URLFrontier \<times> frontier_call \<times> call_outcome \<times> URLFrontier) list \<Rightarrow> int list" where
  "returned_depths history = map snd (returned history)"

text \<open>
  A run in which no \<^verbatim>\<open>add_url\<close> enqueues a URL at a depth below the depth that the
  latest \<^verbatim>\<open>get_next\<close> before it returned (\<open>lo\<close> is that depth, \<open>None\<close> before the first
  one). The crawl loop is such a run: it enqueues the links of a page at the depth of
  the page plus one.
\<close>

fun adds_not_below ::
  "int option \<Rightarrow> (URLFrontier \<times> frontier_call \<times> call_outcome \<times> URLFrontier) list \<Rightarrow> bool" where
  "adds_not_below lo [] = True"
| "adds_not_below lo ((s, Add_url u d, Added (Inr True), s') # rest) =
     ((case lo of None \<Rightarrow> True | Some l \<Rightarrow> l \<le> d) \<and> adds_not_below lo rest)"
| "adds_not_below lo ((s, c, Got (Some (u, d)), s') # rest) = adds_not_below (Some d) rest"
| "adds_not_below lo (x # rest) = adds_not_below lo rest"

section \<open>Fetcher: \<^verbatim>\<open>app/fetcher.py\<close>\<close>

text \<open>
  \<^verbatim>\<open>FetchResult\<close> is a dataclass (its field \<^verbatim>\<open>method\<close> is \<open>fetch_method\<close> here,
  the word being reserved). The float field is only stored and passed
  on, never computed with; it is carried as a real.
\<close>

record FetchResult =
  url :: string
  status_code :: int
  html :: string
  headers :: "(string \<times> string) list"
  response_time :: real
  fetch_method :: string
  error :: "string option"

text \<open>
  \<^verbatim>\<open>return 200 <= self.status_code < 400 and self.html and not self.error\<close>: the
  property is used for its truth value only; an empty string and \<^verbatim>\<open>None\<close> are falsy.
\<close>

definition ok :: "FetchResult \<Rightarrow> bool" where
  "ok r \<longleftrightarrow> 200 \<le> status_code r \<and> status_code r < 400 \<and> html r \<noteq> []
     \<and> (case error r of None \<Rightarrow> True | Some e \<Rightarrow> e = [])"

text \<open>
  What \<^verbatim>\<open>_fetch_with_retries\<close> does besides returning: the calls of
  \<^verbatim>\<open>_fetch_static\<close> (numbered by the loop variable \<^verbatim>\<open>attempt\<close>) and the calls of
  \<^verbatim>\<open>asyncio.sleep(wait)\<close>, in program order.
\<close>

datatype fetch_event = Fetch_static nat | Sleep int

text \<open>
  The body of \<^verbatim>\<open>for attempt in range(max_retries + 1)\<close>, over the attempts still to
  run. \<open>fetch_static k\<close> is the outcome of the call made in iteration \<open>k\<close>. The
  accumulator carries \<^verbatim>\<open>last_error\<close> and the events so far; the first equation is
  the statement after the loop.
\<close>

fun retry_loop ::
  "(nat \<Rightarrow> exn + FetchResult) \<Rightarrow> string \<Rightarrow> nat list \<Rightarrow> string \<Rightarrow> fetch_event list
    \<Rightarrow> (exn + FetchResult) \<times> fetch_event list" where
  "retry_loop fetch_static u [] last_error evs =
     (Inr \<lparr>url = u, status_code = 0, html = [], headers = [], response_time = 0,
            fetch_method = ''static'', error = Some last_error\<rparr>, evs)"
| "retry_loop fetch_static u (attempt # rest) last_error evs =
     (case fetch_static attempt of
        Inr r \<Rightarrow> (Inr r, evs @ [Fetch_static attempt])
      | Inl exc \<Rightarrow>
          retry_loop fetch_static u rest (str_exc exc)
            (evs @ [Fetch_static attempt, Sleep (min (2 ^ attempt) 30)]))"

text \<open>\<^verbatim>\<open>range(n)\<close> for a Python integer \<open>n\<close>: empty when \<open>n \<le> 0\<close>.\<close>

definition py_range :: "int \<Rightarrow> nat list" where
  "py_range n = [0..<nat n]"

definition fetch_with_retries ::
  "(nat \<Rightarrow> exn + FetchResult) \<Rightarrow> string \<Rightarrow> int
    \<Rightarrow> (exn + FetchResult) \<times> fetch_event list" where
  "fetch_with_retries fetch_static u max_retries =
     retry_loop fetch_static u (py_range (max_retries + 1)) [] []"

text \<open>Whether an event is a call of \<^verbatim>\<open>_fetch_static\<close>.\<close>

fun is_fetch :: "fetch_event \<Rightarrow> bool" where
  "is_fetch (Fetch_static k) = True"
| "is_fetch (Sleep w) = False"

section \<open>Parsed documents\<close>

text \<open>
  A parsed page (a \<^verbatim>\<open>BeautifulSoup\<close> object) is a tree: a tag has a name, attributes
  and children; the leaves are strings and comments. \<^verbatim>\<open>find_all(name)\<close> returns the
  tags of that name among the descendants of a node, in document order (the order of
  a pre-order walk). \<^verbatim>\<open>tag.get(key)\<close> is the attribute or \<^verbatim>\<open>None\<close>.
  \<^verbatim>\<open>get_text(strip=True)\<close> joins the strings below a tag, each stripped, the empty
  ones left out; comments do not count as text.
\<close>

datatype node =
  Tag string "(string \<times> string) list" "node list"
| NavigableString string
| Comment string

fun descendants :: "node \<Rightarrow> node list" where
  "descendants (Tag n as cs) = concat (map (\<lambda>c. c # descendants c) cs)"
| "descendants (NavigableString s) = []"
| "descendants (Comment s) = []"

fun is_tag :: "string \<Rightarrow> node \<Rightarrow> bool" where
  "is_tag name (Tag n as cs) = (n = name)"
| "is_tag name (NavigableString s) = False"
| "is_tag name (Comment s) = False"

definition find_all :: "node \<Rightarrow> string \<Rightarrow> node list" where
  "find_all soup name = filter (is_tag name) (descendants soup)"

fun get :: "node \<Rightarrow> string \<Rightarrow> string option" where
  "get (Tag n as cs) key = map_of as key"
| "get (NavigableString s) key = None"
| "get (Comment s) key = None"

fun stripped_string :: "node \<Rightarrow> string" where
  "stripped_string (NavigableString s) = strip s"
| "stripped_string (Tag n as cs) = []"
| "stripped_string (Comment s) = []"

definition get_text :: "node \<Rightarrow> string" where
  "get_text tag = concat (map stripped_string (descendants tag))"

section \<open>Text extractor: \<^verbatim>\<open>app/extractors/text.py\<close>\<close>

text \<open>The tag name \<^verbatim>\<open>f"h{level}"\<close> for a level of one digit.\<close>

definition h_name :: "nat \<Rightarrow> string" where
  "h_name level = CHR ''h'' # [''0123456789'' ! level]"

text \<open>
  \<^verbatim>\<open>TextExtractor._get_headings\<close>: the outer loop runs over the levels 1 to 6, the
  inner loop over the tags of that level; a heading \<^verbatim>\<open>{"level": level, "text": text}\<close>
  is the pair of its level and text.
\<close>

definition level_headings :: "node \<Rightarrow> nat \<Rightarrow> (nat \<times> string) list" where
  "level_headings soup level =
     map (\<lambda>tag. (level, get_text tag))
       (filter (\<lambda>tag. get_text tag \<noteq> []) (find_all soup (h_name level)))"

definition get_headings :: "node \<Rightarrow> (nat \<times> string) list" where
  "get_headings soup = concat (map (level_headings soup) [1..<7])"

text \<open>
  The headings as the specification words them: every \<^verbatim>\<open>h1\<close> to \<^verbatim>\<open>h6\<close> element with
  non-empty text, in document order, tagged with its level.
\<close>

fun heading_level :: "node \<Rightarrow> nat option" where
  "heading_level (Tag n as cs) = map_of (map (\<lambda>l. (h_name l, l)) [1..<7]) n"
| "heading_level (NavigableString s) = None"
| "heading_level (Comment s) = None"

definition headings_in_document_order :: "node \<Rightarrow> (nat \<times> string) list" where
  "headings_in_document_order soup =
     concat (map (\<lambda>tag. case heading_level tag of
                           None \<Rightarrow> []
                         | Some l \<Rightarrow> if get_text tag \<noteq> [] then [(l, get_text tag)] else [])
               (descendants soup))"

section \<open>Image extractor: \<^verbatim>\<open>app/extractors/image.py\<close>\<close>

text \<open>The dict returned for a kept image has these four keys.\<close>

record ImageRecord =
  image_path :: string
  source_page :: string
  alt_text :: string
  image_url :: string

text \<open>
  The fields of an \<^verbatim>\<open>ImageExtractor\<close>; \<^verbatim>\<open>_seen_hashes\<close> and \<^verbatim>\<open>_seen_urls\<close> are
  \<open>seen_hashes\<close> and \<open>seen_urls\<close>.
\<close>

record ImageExtractor =
  images_dir :: string
  min_size :: int
  download :: bool
  seen_hashes :: "string set"
  seen_urls :: "string set"

text \<open>
  \<^verbatim>\<open>__init__(self, output_dir, min_size=100, download=True)\<close>;
  \<open>path_join\<close> is \<^verbatim>\<open>os.path.join\<close>.
\<close>

definition ImageExtractor_init ::
  "(string \<Rightarrow> string \<Rightarrow> string) \<Rightarrow> string \<Rightarrow> int \<Rightarrow> bool \<Rightarrow> ImageExtractor" where
  "ImageExtractor_init path_join output_dir min_size_arg download_arg =
     \<lparr>images_dir = path_join output_dir ''images'', min_size = min_size_arg,
      download = download_arg, seen_hashes = {}, seen_urls = {}\<rparr>"

text \<open>\<^verbatim>\<open>a or b\<close> on attribute look-ups: the first that is neither \<^verbatim>\<open>None\<close> nor empty.\<close>

fun or_else :: "string option \<Rightarrow> string \<Rightarrow> string" where
  "or_else None b = b"
| "or_else (Some a) b = (if a = [] then b else a)"

text \<open>
  The loop of \<^verbatim>\<open>_find_image_urls\<close> over the \<^verbatim>\<open>img\<close> tags still to visit, with
  \<^verbatim>\<open>self._seen_urls\<close> and \<^verbatim>\<open>found\<close> as accumulators. \<open>urljoin\<close> is
  \<^verbatim>\<open>urllib.parse.urljoin\<close>, of the standard library.
\<close>

fun find_loop ::
  "(string \<Rightarrow> string \<Rightarrow> string) \<Rightarrow> string \<Rightarrow> node list \<Rightarrow> string set
    \<Rightarrow> (string \<times> string) list \<Rightarrow> (string \<times> string) list \<times> string set" where
  "find_loop urljoin page_url [] seen found = (found, seen)"
| "find_loop urljoin page_url (img # imgs) seen found =
     (let src = or_else (get img ''src'')
                  (or_else (get img ''data-src'') (or_else (get img ''data-lazy-src'') []))
      in if src = [] \<or> startswith src ''data:''
         then find_loop urljoin page_url imgs seen found
         else
           let abs_url = urljoin page_url src;
               alt = or_else (get img ''alt'') []
           in if abs_url \<notin> seen
              then find_loop urljoin page_url imgs (insert abs_url seen)
                     (found @ [(abs_url, strip alt)])
              else find_loop urljoin page_url imgs seen found)"

definition find_image_urls ::
  "(string \<Rightarrow> string \<Rightarrow> string) \<Rightarrow> ImageExtractor \<Rightarrow> node \<Rightarrow> string
    \<Rightarrow> (string \<times> string) list \<times> ImageExtractor" where
  "find_image_urls urljoin self soup page_url =
     (case find_loop urljoin page_url (find_all soup ''img'') (seen_urls self) [] of
        (found, seen) \<Rightarrow> (found, self\<lparr>seen_urls := seen\<rparr>))"

text \<open>
  What \<^verbatim>\<open>_process_image\<close> reads from outside: the answer to the HTTP request (status
  and body, or an exception), whether the imports of \<^verbatim>\<open>PIL\<close> and \<^verbatim>\<open>imagehash\<close>
  succeeded, what \<^verbatim>\<open>Image.open(...).size\<close> and \<^verbatim>\<open>imagehash.phash\<close> give for a
  body, and the saving of the file, which computes the path from the page, the image
  URL and the body and returns it, or raises.
\<close>

record image_env =
  http_get :: "string \<Rightarrow> exn + int \<times> string"
  HAS_IMAGEHASH :: bool
  image_size :: "string \<Rightarrow> exn + int \<times> int"
  phash :: "string \<Rightarrow> exn + string"
  save :: "string \<Rightarrow> string \<Rightarrow> string \<Rightarrow> exn + string"

text \<open>
  The size filter and perceptual dedup, inside their own \<^verbatim>\<open>try\<close>: \<open>Inl ()\<close> is the
  \<^verbatim>\<open>return None\<close> of a discarded image, \<open>Inr\<close> carries on with the (possibly
  updated) extractor; an exception of \<^verbatim>\<open>PIL\<close> keeps the image.
\<close>

definition size_filter :: "image_env \<Rightarrow> ImageExtractor \<Rightarrow> string \<Rightarrow> unit + ImageExtractor" where
  "size_filter env self data =
     (case image_size env data of
        Inl exc \<Rightarrow> Inr self
      | Inr (w, h) \<Rightarrow>
          if w < min_size self \<or> h < min_size self then Inl ()
          else (case phash env data of
                  Inl exc \<Rightarrow> Inr self
                | Inr ph \<Rightarrow>
                    if ph \<in> seen_hashes self then Inl ()
                    else Inr (self\<lparr>seen_hashes := insert ph (seen_hashes self)\<rparr>)))"

text \<open>\<^verbatim>\<open>_process_image\<close>: the record of a kept image or \<^verbatim>\<open>None\<close>, and the extractor.\<close>

definition process_image ::
  "image_env \<Rightarrow> ImageExtractor \<Rightarrow> string \<Rightarrow> string \<Rightarrow> string
    \<Rightarrow> ImageRecord option \<times> ImageExtractor" where
  "process_image env self u page_url alt =
     (if \<not> download self
      then (Some \<lparr>image_path = [], source_page = page_url, alt_text = alt, image_url = u\<rparr>,
            self)
      else
        case http_get env u of
          Inl exc \<Rightarrow> (None, self)
        | Inr (status, data) \<Rightarrow>
            if status \<noteq> 200 then (None, self)
            else if data = [] then (None, self)
            else
              case (if HAS_IMAGEHASH env then size_filter env self data else Inr self) of
                Inl discarded \<Rightarrow> (None, self)
              | Inr self' \<Rightarrow>
                  (case save env page_url u data of
                     Inl exc \<Rightarrow> (None, self')
                   | Inr filepath \<Rightarrow>
                       (Some \<lparr>image_path = filepath, source_page = page_url, alt_text = alt,
                              image_url = u\<rparr>, self')))"

text \<open>
  \<^verbatim>\<open>ImageExtractor.extract\<close> (\<open>extract\<close> being a reserved word, it is
  \<open>extract_images\<close> here). \<^verbatim>\<open>asyncio.gather\<close> runs one \<^verbatim>\<open>_process_image\<close> task for
  each image found and returns their outcomes in the order found. A task suspends
  only while it downloads, so the checks on \<^verbatim>\<open>_seen_hashes\<close> of two tasks never
  interleave; the model takes the tasks in the order found. Besides the records and
  the extractor, the model returns the URLs handed to \<^verbatim>\<open>_process_image\<close>.
\<close>

fun process_all ::
  "image_env \<Rightarrow> ImageExtractor \<Rightarrow> string \<Rightarrow> (string \<times> string) list
    \<Rightarrow> ImageRecord list \<times> ImageExtractor" where
  "process_all env self page_url [] = ([], self)"
| "process_all env self page_url ((u, alt) # rest) =
     (case process_image env self u page_url alt of
        (outcome, self') \<Rightarrow>
          (case process_all env self' page_url rest of
             (results, self'') \<Rightarrow>
               ((case outcome of None \<Rightarrow> results | Some r \<Rightarrow> r # results), self'')))"

definition extract_images ::
  "(string \<Rightarrow> string \<Rightarrow> string) \<Rightarrow> image_env \<Rightarrow> ImageExtractor \<Rightarrow> node \<Rightarrow> string
    \<Rightarrow> (ImageRecord list \<times> string list) \<times> ImageExtractor" where
  "extract_images urljoin env self soup page_url =
     (case find_image_urls urljoin self soup page_url of
        (image_urls, self') \<Rightarrow>
          (case process_all env self' page_url image_urls of
             (results, self'') \<Rightarrow> ((results, map fst image_urls), self'')))"

text \<open>
  The pages of one job, in the order crawled, through one extractor: the URLs handed
  to \<^verbatim>\<open>_process_image\<close> page by page.
\<close>

fun extract_pages ::
  "(string \<Rightarrow> string \<Rightarrow> string) \<Rightarrow> image_env \<Rightarrow> ImageExtractor \<Rightarrow> (node \<times> string) list
    \<Rightarrow> string list list \<times> ImageExtractor" where
  "extract_pages urljoin env self [] = ([], self)"
| "extract_pages urljoin env self ((soup, page_url) # pages) =
     (case extract_images urljoin env self soup page_url of
        ((results, processed), self') \<Rightarrow>
          (case extract_pages urljoin env self' pages of
             (rest, self'') \<Rightarrow> (processed # rest, self'')))"

section \<open>Extraction pipeline: \<^verbatim>\<open>app/extractors/__init__.py\<close>\<close>

text \<open>
  The text extractor returns a dict with string keys; Python dicts keep insertion
  order, so it is an association list. The values are strings or the heading list.
\<close>

datatype pyval = Str string | Headings "(int \<times> string) list"

type_synonym text_data = "(string \<times> pyval) list"

record ExtractionResult =
  text_data :: text_data
  images :: "ImageRecord list"
  internal_links :: "string list"
  external_links :: "string list"

text \<open>
  \<^verbatim>\<open>ExtractorPipeline.run\<close>. The three extractor calls are given by their outcomes on
  this page: \<open>text_ex\<close>, \<open>image_ex\<close> and \<open>link_ex\<close> are what
  \<^verbatim>\<open>self.text_extractor.extract(soup, readable_text, url)\<close>,
  \<^verbatim>\<open>await self.image_extractor.extract(soup, url)\<close> and
  \<^verbatim>\<open>self.link_extractor.extract(soup, url)\<close> raise or return. Each
  \<^verbatim>\<open>try\<close> assigns its fields of \<^verbatim>\<open>result\<close> when the call returns and leaves the
  defaults of \<^verbatim>\<open>ExtractionResult()\<close> when it raises.
\<close>

definition run ::
  "(exn + text_data) \<Rightarrow> (exn + ImageRecord list) \<Rightarrow> (exn + string list \<times> string list)
    \<Rightarrow> exn + ExtractionResult" where
  "run text_ex image_ex link_ex =
     (let result = \<lparr>text_data = [], images = [], internal_links = [], external_links = []\<rparr>;
          result = (case text_ex of
                      Inr d \<Rightarrow> result\<lparr>text_data := d\<rparr>
                    | Inl exc \<Rightarrow> result);
          result = (case image_ex of
                      Inr imgs \<Rightarrow> result\<lparr>images := imgs\<rparr>
                    | Inl exc \<Rightarrow> result);
          result = (case link_ex of
                      Inr (internal, external) \<Rightarrow>
                        result\<lparr>internal_links := internal, external_links := external\<rparr>
                    | Inl exc \<Rightarrow> result)
      in Inr result)"

section \<open>Configuration: \<^verbatim>\<open>app/config.py\<close>\<close>

text \<open>
  \<^verbatim>\<open>CrawlConfig\<close>. Its fields \<^verbatim>\<open>max_depth\<close> and \<^verbatim>\<open>allowed_domains\<close> are
  \<open>config_max_depth\<close> and \<open>config_allowed_domains\<close> here, the plain names being the
  fields of the frontier.
\<close>

record CrawlConfig =
  start_url :: string
  config_max_depth :: int
  page_limit :: int
  rate_limit :: real
  config_allowed_domains :: "string list"
  save_raw_html :: bool
  output_dir :: string
  output_format :: string
  user_agents :: "string list"
  respect_robots :: bool
  dynamic_fallback :: bool
  request_timeout :: int
  max_retries :: int
  min_image_size :: int
  download_images :: bool

section \<open>Crawler: \<^verbatim>\<open>app/crawler.py\<close>\<close>

text \<open>
  \<^verbatim>\<open>ExtractorPipeline.__init__(self, output_dir, allowed_domains)\<close> builds the image
  extractor with \<^verbatim>\<open>ImageExtractor(output_dir=output_dir)\<close>, that is with the defaults
  \<^verbatim>\<open>min_size=100\<close> and \<^verbatim>\<open>download=True\<close>; the text extractor has no fields, the link
  extractor keeps the allowed domains in lower case.
\<close>

record ExtractorPipeline =
  image_extractor :: ImageExtractor
  link_extractor_domains :: "string set"

definition ExtractorPipeline_init ::
  "(string \<Rightarrow> string \<Rightarrow> string) \<Rightarrow> string \<Rightarrow> string list \<Rightarrow> ExtractorPipeline" where
  "ExtractorPipeline_init path_join dir domains =
     \<lparr>image_extractor = ImageExtractor_init path_join dir 100 True,
      link_extractor_domains = lower ` set domains\<rparr>"

text \<open>
  The accumulator \<^verbatim>\<open>DataStructurer\<close> (\<^verbatim>\<open>app/structurer.py\<close>): the lists it appends to.
  \<^verbatim>\<open>add_page\<close> also stamps the record with the date and a word count, which are left
  out.
\<close>

record DataStructurer =
  all_pages :: "text_data list"
  all_images :: "ImageRecord list"
  all_external_links :: "string list"
  errors :: "(string \<times> string) list"

definition add_page :: "DataStructurer \<Rightarrow> text_data \<Rightarrow> DataStructurer" where
  "add_page st d = st\<lparr>all_pages := all_pages st @ [d]\<rparr>"

definition add_images :: "DataStructurer \<Rightarrow> ImageRecord list \<Rightarrow> DataStructurer" where
  "add_images st imgs = st\<lparr>all_images := all_images st @ imgs\<rparr>"

definition add_external_links :: "DataStructurer \<Rightarrow> string list \<Rightarrow> DataStructurer" where
  "add_external_links st links = st\<lparr>all_external_links := all_external_links st @ links\<rparr>"

definition add_error :: "DataStructurer \<Rightarrow> string \<Rightarrow> string \<Rightarrow> DataStructurer" where
  "add_error st u msg = st\<lparr>errors := errors st @ [(u, msg)]\<rparr>"

text \<open>
  The fields of a \<^verbatim>\<open>Crawler\<close> that the crawl loop reads or changes, as
  \<^verbatim>\<open>Crawler.__init__\<close> sets them. The image extractor of the pipeline gets no argument
  from the configuration.
\<close>

record Crawler =
  config :: CrawlConfig
  structurer :: DataStructurer
  frontier :: URLFrontier
  extractor_pipeline :: ExtractorPipeline

definition Crawler_init ::
  "(string \<Rightarrow> string \<Rightarrow> string) \<Rightarrow> CrawlConfig \<Rightarrow> DataStructurer \<Rightarrow> Crawler" where
  "Crawler_init path_join cfg st =
     \<lparr>config = cfg,
      structurer = st,
      frontier = URLFrontier_init (config_allowed_domains cfg) (config_max_depth cfg),
      extractor_pipeline = ExtractorPipeline_init path_join (output_dir cfg) (config_allowed_domains cfg)\<rparr>"

text \<open>
  What happens outside the crawler when one page is processed: what
  \<^verbatim>\<open>robots.can_fetch(url)\<close>, \<^verbatim>\<open>fetcher.fetch(url)\<close>, \<^verbatim>\<open>raw_storage.save(...)\<close> and
  \<^verbatim>\<open>parser.parse(...)\<close> return or raise, and what the three extractors of the pipeline
  return or raise on the parsed page.
\<close>

record page_world =
  can_fetch :: "exn + bool"
  fetch :: "exn + FetchResult"
  raw_save :: "exn + unit"
  parse :: "exn + unit"
  text_extraction :: "exn + text_data"
  image_extraction :: "exn + ImageRecord list"
  link_extraction :: "exn + string list \<times> string list"

text \<open>\<^verbatim>\<open>str(n)\<close> for an integer, used in the error message of a failed fetch.\<close>

function str_nat :: "nat \<Rightarrow> string" where
  "str_nat n = (if n < 10 then [''0123456789'' ! n]
                else str_nat (n div 10) @ [''0123456789'' ! (n mod 10)])"
  by pat_completeness auto
termination
  by (relation "measure id") auto

declare str_nat.simps [simp del]

definition str_int :: "int \<Rightarrow> string" where
  "str_int i = (if i < 0 then CHR ''-'' # str_nat (nat (- i)) else str_nat (nat i))"

text \<open>
  \<^verbatim>\<open>for link in extraction.internal_links: self.frontier.add_url(link, depth=depth + 1)\<close>;
  an exception of \<^verbatim>\<open>add_url\<close> ends the loop and passes on.
\<close>

fun enqueue_links :: "pylib \<Rightarrow> URLFrontier \<Rightarrow> string list \<Rightarrow> int \<Rightarrow> (exn + unit) \<times> URLFrontier" where
  "enqueue_links lib f [] d = (Inr (), f)"
| "enqueue_links lib f (link # links) d =
     (case add_url lib f link d of
        (Inl exc, f') \<Rightarrow> (Inl exc, f')
      | (Inr added, f') \<Rightarrow> enqueue_links lib f' links d)"

text \<open>
  The three \<^verbatim>\<open>if extraction. ... : self.structurer.add_...\<close> of \<^verbatim>\<open>_process_url\<close>, and
  \<^verbatim>\<open>_process_url\<close> itself: \<open>Inr\<close> is the truth value returned, \<open>Inl\<close> an exception that no
  \<^verbatim>\<open>try\<close> of the method catches (from saving the raw page or from \<^verbatim>\<open>add_url\<close>).
\<close>

definition accumulate :: "DataStructurer \<Rightarrow> ExtractionResult \<Rightarrow> DataStructurer" where
  "accumulate st0 extraction =
     (let st = (if text_data extraction \<noteq> [] then add_page st0 (text_data extraction) else st0);
          st = (if images extraction \<noteq> [] then add_images st (images extraction) else st);
          st = (if external_links extraction \<noteq> []
                then add_external_links st (external_links extraction) else st)
      in st)"

definition process_url ::
  "pylib \<Rightarrow> page_world \<Rightarrow> Crawler \<Rightarrow> string \<Rightarrow> int \<Rightarrow> (exn + bool) \<times> Crawler" where
  "process_url lib w self u depth =
     (if respect_robots (config self) \<and> can_fetch w = Inr False then (Inr False, self)
      else
        case fetch w of
          Inl exc \<Rightarrow>
            (Inr False,
             self\<lparr>structurer := add_error (structurer self) u (''Fetch error: '' @ str_exc exc)\<rparr>)
        | Inr result \<Rightarrow>
            if \<not> ok result
            then (Inr False,
                  self\<lparr>structurer := add_error (structurer self) u
                    (''HTTP '' @ str_int (status_code result) @ '': '' @
                       (case error result of
                          None \<Rightarrow> ''Bad status''
                        | Some e \<Rightarrow> if e = [] then ''Bad status'' else e))\<rparr>)
            else
              (case (if save_raw_html (config self) then raw_save w else Inr ()) of
                 Inl exc \<Rightarrow> (Inl exc, self)
               | Inr saved \<Rightarrow>
                   (case parse w of
                      Inl exc \<Rightarrow>
                        (Inr False,
                         self\<lparr>structurer :=
                           add_error (structurer self) u (''Parse error: '' @ str_exc exc)\<rparr>)
                    | Inr parsed \<Rightarrow>
                        (case run (text_extraction w) (image_extraction w) (link_extraction w) of
                           Inl exc \<Rightarrow>
                             (Inr False,
                              self\<lparr>structurer :=
                                add_error (structurer self) u (''Extraction error: '' @ str_exc exc)\<rparr>)
                         | Inr extraction \<Rightarrow>
                             (case enqueue_links lib (frontier self) (internal_links extraction)
                                     (depth + 1) of
                                (Inl exc, f') \<Rightarrow>
                                  (Inl exc, self\<lparr>structurer := accumulate (structurer self) extraction,
                                                 frontier := f'\<rparr>)
                              | (Inr enqueued_all, f') \<Rightarrow>
                                  (Inr True, self\<lparr>structurer := accumulate (structurer self) extraction,
                                                  frontier := f'\<rparr>))))))"

text \<open>
  The crawl loop. A visit records the number of the iteration, the URL and depth
  popped and what \<^verbatim>\<open>_process_url\<close> returned. The state of the loop is the crawler,
  \<^verbatim>\<open>pages_crawled\<close> and the visits so far; the loop ends when the quota is met, when
  the frontier is exhausted, or with an exception.
\<close>

record crawl_state =
  crawler :: Crawler
  pages_crawled :: int
  visits :: "(nat \<times> string \<times> int \<times> bool) list"
  raised :: "exn option"

datatype iteration = Stop crawl_state | Continue crawl_state

text \<open>One pass through the body of \<^verbatim>\<open>while pages_crawled < self.config.page_limit\<close>.\<close>

definition crawl_iteration ::
  "pylib \<Rightarrow> (nat \<Rightarrow> string \<Rightarrow> page_world) \<Rightarrow> crawl_state \<Rightarrow> iteration" where
  "crawl_iteration lib world cs =
     (case get_next lib (frontier (crawler cs)) of
        (None, f) \<Rightarrow> Stop (cs\<lparr>crawler := (crawler cs)\<lparr>frontier := f\<rparr>\<rparr>)
      | (Some (u, depth), f) \<Rightarrow>
          (case process_url lib (world (length (visits cs)) u)
                  ((crawler cs)\<lparr>frontier := f\<rparr>) u depth of
             (Inl exc, self) \<Rightarrow> Stop (cs\<lparr>crawler := self, raised := Some exc\<rparr>)
           | (Inr success, self) \<Rightarrow>
               Continue
                 (cs\<lparr>crawler := self\<lparr>frontier := mark_visited lib (frontier self) u\<rparr>,
                     pages_crawled := (if success then pages_crawled cs + 1 else pages_crawled cs),
                     visits := visits cs @ [(length (visits cs), u, depth, success)]\<rparr>)))"

text \<open>
  An iteration that goes on either has counted a page or has left the queue shorter; so
  the loop ends.
\<close>

lemma get_next_loop_shorter:
  "get_next_loop lib vis q = (r, q') \<Longrightarrow>
   length q' \<le> length q \<and> (r \<noteq> None \<longrightarrow> length q' < length q)"
proof (induction lib vis q arbitrary: r q' rule: get_next_loop.induct)
  case (1 lib vis q)
  show ?case
  proof (cases "q = []")
    case True
    with "1.prems" show ?thesis by (subst (asm) get_next_loop.simps) auto
  next
    case False
    then obtain e q1 where pop: "heappop q = Some (e, q1)"
      by (cases "heappop q") (auto simp: heappop_def Let_def split: if_splits)
    from heappop_length[OF pop] have len: "length q1 < length q" by simp
    show ?thesis
    proof (cases "hash lib (entry_url e) \<in> vis")
      case True
      with False pop "1.prems" have "get_next_loop lib vis q1 = (r, q')"
        by (subst (asm) get_next_loop.simps) simp
      from "1.IH"[OF False pop refl True this] len show ?thesis by auto
    next
      case nv: False
      with False pop "1.prems" have "q' = q1"
        by (subst (asm) get_next_loop.simps) simp
      with len show ?thesis by simp
    qed
  qed
qed

lemma process_url_config: "config (snd (process_url lib w self u d)) = config self"
  by (simp add: process_url_def split: sum.splits prod.splits)

lemma process_url_False:
  "process_url lib w self u d = (Inr False, self') \<Longrightarrow> frontier self' = frontier self"
  by (auto simp: process_url_def split: sum.splits prod.splits if_splits)

lemma crawl_iteration_Continue:
  assumes "crawl_iteration lib world cs = Continue cs'"
  shows "config (crawler cs') = config (crawler cs)
       \<and> (pages_crawled cs' = pages_crawled cs + 1
          \<or> pages_crawled cs' = pages_crawled cs
            \<and> length (queue (frontier (crawler cs'))) < length (queue (frontier (crawler cs))))"
proof -
  obtain r f where g: "get_next lib (frontier (crawler cs)) = (r, f)"
    by (cases "get_next lib (frontier (crawler cs))")
  with assms obtain u depth where r: "r = Some (u, depth)"
    by (cases r) (auto simp: crawl_iteration_def)
  obtain q' where loop: "get_next_loop lib (visited (frontier (crawler cs))) (queue (frontier (crawler cs))) = (r, q')"
    and f: "f = (frontier (crawler cs))\<lparr>queue := q'\<rparr>"
    using g by (auto simp: get_next_def split: prod.splits)
  from get_next_loop_shorter[OF loop] r have short: "length (queue f) < length (queue (frontier (crawler cs)))"
    unfolding f by simp
  let ?self = "(crawler cs)\<lparr>frontier := f\<rparr>"
  obtain out self' where p: "process_url lib (world (length (visits cs)) u) ?self u depth = (out, self')"
    by (cases "process_url lib (world (length (visits cs)) u) ?self u depth")
  with assms g r obtain success where out: "out = Inr success"
    by (cases out) (auto simp: crawl_iteration_def)
  from assms g r p out
  have cs': "cs' = cs\<lparr>crawler := self'\<lparr>frontier := mark_visited lib (frontier self') u\<rparr>,
                     pages_crawled := (if success then pages_crawled cs + 1 else pages_crawled cs),
                     visits := visits cs @ [(length (visits cs), u, depth, success)]\<rparr>"
    by (simp add: crawl_iteration_def)
  have cfg: "config self' = config (crawler cs)"
    using process_url_config[of lib "world (length (visits cs)) u" ?self u depth] p by simp
  show ?thesis
  proof (cases success)
    case True
    with cs' cfg show ?thesis by simp
  next
    case False
    with p out have "frontier self' = f" using process_url_False by fastforce
    with cs' cfg False short show ?thesis by (simp add: mark_visited_def)
  qed
qed

function crawl_loop :: "pylib \<Rightarrow> (nat \<Rightarrow> string \<Rightarrow> page_world) \<Rightarrow> crawl_state \<Rightarrow> crawl_state" where
  "crawl_loop lib world cs =
     (if pages_crawled cs < page_limit (config (crawler cs))
      then (case crawl_iteration lib world cs of
              Stop cs' \<Rightarrow> cs'
            | Continue cs' \<Rightarrow> crawl_loop lib world cs')
      else cs)"
  by pat_completeness auto
termination
proof (relation "measures [\<lambda>(lib, world, cs). nat (page_limit (config (crawler cs)) - pages_crawled cs),
                           \<lambda>(lib, world, cs). length (queue (frontier (crawler cs)))]", goal_cases)
  case 1 show ?case by simp
next
  case (2 lib world cs cs')
  from crawl_iteration_Continue[OF 2(2)] 2(1) show ?case by auto
qed

declare crawl_loop.simps [simp del]

text \<open>
  \<^verbatim>\<open>crawl\<close>: the start URL is enqueued at depth 0 (an exception of \<^verbatim>\<open>add_url\<close> would end
  the job at once), then the loop runs with \<^verbatim>\<open>pages_crawled = 0\<close>.
\<close>

definition crawl :: "pylib \<Rightarrow> (nat \<Rightarrow> string \<Rightarrow> page_world) \<Rightarrow> Crawler \<Rightarrow> crawl_state" where
  "crawl lib world self =
     (case add_url lib (frontier self) (start_url (config self)) 0 of
        (Inl exc, f) \<Rightarrow>
          \<lparr>crawler = self\<lparr>frontier := f\<rparr>, pages_crawled = 0, visits = [], raised = Some exc\<rparr>
      | (Inr added, f) \<Rightarrow>
          crawl_loop lib world
            \<lparr>crawler = self\<lparr>frontier := f\<rparr>, pages_crawled = 0, visits = [], raised = None\<rparr>)"

text \<open>
  The cases of the claim about one page: robots forbids the URL (with robots checking
  on); and the pipeline runs through, that is robots does not forbid, the fetch returns
  an \<^verbatim>\<open>ok\<close> result, and neither the parse nor the extraction raises.
\<close>

definition robots_blocked :: "CrawlConfig \<Rightarrow> page_world \<Rightarrow> bool" where
  "robots_blocked cfg w \<longleftrightarrow> respect_robots cfg \<and> can_fetch w = Inr False"

definition fetch_ok :: "page_world \<Rightarrow> bool" where
  "fetch_ok w \<longleftrightarrow> (case fetch w of Inl exc \<Rightarrow> False | Inr result \<Rightarrow> ok result)"

definition pipeline_completes :: "CrawlConfig \<Rightarrow> page_world \<Rightarrow> bool" where
  "pipeline_completes cfg w \<longleftrightarrow>
     \<not> robots_blocked cfg w \<and> fetch_ok w \<and> \<not> isl (parse w)
     \<and> \<not> isl (run (text_extraction w) (image_extraction w) (link_extraction w))"

section \<open>Properties of the fetcher\<close>

text \<open>The events of a run of failed attempts: each call is followed by its sleep.\<close>

definition backoff :: "nat list \<Rightarrow> fetch_event list" where
  "backoff ks = concat (map (\<lambda>k. [Fetch_static k, Sleep (min (2 ^ k) 30)]) ks)"

lemma retry_loop_all_raise:
  "\<forall>k \<in> set ks. isl (fs k) \<Longrightarrow>
   retry_loop fs u ks le evs =
     (Inr \<lparr>url = u, status_code = 0, html = [], headers = [], response_time = 0,
            fetch_method = ''static'',
            error = Some (if ks = [] then le else str_exc (projl (fs (last ks))))\<rparr>,
      evs @ backoff ks)"
  by (induction ks arbitrary: le evs) (auto simp: backoff_def split: sum.splits)

lemma retry_loop_first_return:
  "\<forall>k \<in> set ks. isl (fs k) \<Longrightarrow> fs a = Inr r \<Longrightarrow>
   retry_loop fs u (ks @ a # rest) le evs = (Inr r, evs @ backoff ks @ [Fetch_static a])"
  by (induction ks arbitrary: le evs) (auto simp: backoff_def split: sum.splits)

lemma split_attempts:
  "(\<forall>k \<in> set ks. isl (fs k)) \<or>
   (\<exists>pre a rest r. ks = pre @ a # rest \<and> (\<forall>k \<in> set pre. isl (fs k)) \<and> fs a = Inr r)"
proof (induction ks)
  case Nil show ?case by simp
next
  case (Cons k ks)
  show ?case
  proof (cases "fs k")
    case (Inr r)
    then have "k # ks = [] @ k # ks \<and> (\<forall>k \<in> set []. isl (fs k)) \<and> fs k = Inr r" by simp
    then show ?thesis by blast
  next
    case (Inl e)
    from Cons.IH show ?thesis
    proof
      assume "\<forall>k \<in> set ks. isl (fs k)"
      with Inl show ?thesis by simp
    next
      assume "\<exists>pre a rest r. ks = pre @ a # rest \<and> (\<forall>k \<in> set pre. isl (fs k)) \<and> fs a = Inr r"
      then obtain pre a rest r
        where "ks = pre @ a # rest" "\<forall>k \<in> set pre. isl (fs k)" "fs a = Inr r"
        by blast
      with Inl have "k # ks = (k # pre) @ a # rest \<and> (\<forall>k \<in> set (k # pre). isl (fs k))
          \<and> fs a = Inr r"
        by simp
      then show ?thesis by blast
    qed
  qed
qed

lemma backoff_fetches: "length (filter is_fetch (backoff ks)) = length ks"
  by (induction ks) (auto simp: backoff_def)

lemma backoff_length: "length (backoff ks) = 2 * length ks"
  by (induction ks) (auto simp: backoff_def)

lemma backoff_sleep_follows:
  "i < length (backoff ks) \<Longrightarrow> backoff ks ! i = Fetch_static k \<Longrightarrow>
   Suc i < length (backoff ks) \<and> backoff ks ! Suc i = Sleep (min (2 ^ k) 30)"
proof (induction ks arbitrary: i)
  case Nil then show ?case by (simp add: backoff_def)
next
  case (Cons a ks)
  have bo: "backoff (a # ks) = Fetch_static a # Sleep (min (2 ^ a) 30) # backoff ks"
    by (simp add: backoff_def)
  show ?case
  proof (cases i)
    case 0 with Cons.prems bo show ?thesis by simp
  next
    case (Suc j)
    show ?thesis
    proof (cases j)
      case 0 with Suc Cons.prems bo show ?thesis by simp
    next
      case (Suc m)
      with \<open>i = Suc j\<close> Cons.prems bo
      have "m < length (backoff ks)" "backoff ks ! m = Fetch_static k"
        by simp_all
      from Cons.IH[OF this] Suc \<open>i = Suc j\<close> bo show ?thesis by simp
    qed
  qed
qed

text \<open>
  Claim C7. For every URL and every \<open>retries \<ge> 0\<close>, \<^verbatim>\<open>_fetch_with_retries\<close> returns
  a result and raises nothing; it calls \<^verbatim>\<open>_fetch_static\<close> at most \<open>retries + 1\<close>
  times; every attempt \<open>k\<close> that raises is followed at once by a sleep of
  \<open>min (2 ^ k) 30\<close> seconds; and when every attempt raises, the result has status 0,
  empty html and the message of the last exception as its error.
\<close>

theorem fetch_with_retries_contract:
  assumes "0 \<le> retries"
  shows "\<exists>r evs. fetch_with_retries fs u retries = (Inr r, evs)
     \<and> length (filter is_fetch evs) \<le> nat (retries + 1)
     \<and> (\<forall>i k. i < length evs \<and> evs ! i = Fetch_static k \<and> isl (fs k) \<longrightarrow>
            Suc i < length evs \<and> evs ! Suc i = Sleep (min (2 ^ k) 30))
     \<and> ((\<forall>k \<le> nat retries. isl (fs k)) \<longrightarrow>
            r = \<lparr>url = u, status_code = 0, html = [], headers = [], response_time = 0,
                 fetch_method = ''static'',
                 error = Some (str_exc (projl (fs (nat retries))))\<rparr>)"
proof -
  let ?ks = "py_range (retries + 1)"
  have ks: "?ks = [0..<Suc (nat retries)]"
    using assms by (simp add: py_range_def nat_add_distrib)
  have len: "length ?ks = nat (retries + 1)" by (simp add: py_range_def)
  from split_attempts[of ?ks fs] show ?thesis
  proof
    assume all: "\<forall>k \<in> set ?ks. isl (fs k)"
    have last: "last ?ks = nat retries" "?ks \<noteq> []" unfolding ks by simp_all
    from retry_loop_all_raise[OF all, of u "[]" "[]"] last
    have run: "fetch_with_retries fs u retries =
        (Inr \<lparr>url = u, status_code = 0, html = [], headers = [], response_time = 0,
               fetch_method = ''static'', error = Some (str_exc (projl (fs (nat retries))))\<rparr>,
         backoff ?ks)"
      by (simp add: fetch_with_retries_def)
    show ?thesis
      unfolding run using backoff_sleep_follows[of _ ?ks] len
      by (simp add: backoff_fetches)
  next
    assume "\<exists>pre a rest r. ?ks = pre @ a # rest \<and> (\<forall>k \<in> set pre. isl (fs k)) \<and> fs a = Inr r"
    then obtain pre a rest r
      where split: "?ks = pre @ a # rest" and pre: "\<forall>k \<in> set pre. isl (fs k)" and a: "fs a = Inr r"
      by blast
    from retry_loop_first_return[OF pre a, of u rest "[]" "[]"] split
    have run: "fetch_with_retries fs u retries = (Inr r, backoff pre @ [Fetch_static a])"
      by (simp add: fetch_with_retries_def)
    have cnt: "length (filter is_fetch (backoff pre @ [Fetch_static a])) \<le> nat (retries + 1)"
      using len split by (simp add: backoff_fetches)
    have follow: "Suc i < length (backoff pre @ [Fetch_static a])
          \<and> (backoff pre @ [Fetch_static a]) ! Suc i = Sleep (min (2 ^ k) 30)"
      if "i < length (backoff pre @ [Fetch_static a])"
        and "(backoff pre @ [Fetch_static a]) ! i = Fetch_static k" and "isl (fs k)" for i k
    proof (cases "i < length (backoff pre)")
      case True
      with that have "backoff pre ! i = Fetch_static k" by (simp add: nth_append)
      from backoff_sleep_follows[OF True this] show ?thesis by (simp add: nth_append)
    next
      case False
      with that(1) have "i = length (backoff pre)" by simp
      with that(2) have "k = a" by simp
      with a that(3) show ?thesis by simp
    qed
    have "a \<in> set ?ks" using split by simp
    then have "a \<le> nat retries" unfolding ks by auto
    with a have notall: "\<not> (\<forall>k \<le> nat retries. isl (fs k))" by auto
    show ?thesis unfolding run using cnt follow notall by blast
  qed
qed

theorem fetch_with_retries_contract_witness:
  "(0::int) \<le> 2
   \<and> fetch_with_retries (\<lambda>k. Inl (Exception ''timeout'')) ''http://h/'' 2 =
      (Inr \<lparr>url = ''http://h/'', status_code = 0, html = [], headers = [], response_time = 0,
             fetch_method = ''static'', error = Some ''timeout''\<rparr>,
       [Fetch_static 0, Sleep 1, Fetch_static 1, Sleep 2, Fetch_static 2, Sleep 4])"
  using fetch_with_retries_contract[of 2 "\<lambda>k. Inl (Exception ''timeout'')" "''http://h/''"]
  by (simp add: fetch_with_retries_def py_range_def upt_rec)

section \<open>Properties of the extraction pipeline\<close>

text \<open>
  Claim C8. \<^verbatim>\<open>ExtractorPipeline.run\<close> always returns a result, whatever the three
  extractors do. Each field of the result is decided by its own extractor alone: the
  value the extractor returned, or the empty default when it raised; the outcome of
  one extractor never changes the contribution of another.
\<close>

theorem run_isolates_extractor_failures:
  "\<exists>r. run t i l = Inr r
     \<and> text_data r = (case t of Inl e \<Rightarrow> [] | Inr d \<Rightarrow> d)
     \<and> images r = (case i of Inl e \<Rightarrow> [] | Inr x \<Rightarrow> x)
     \<and> internal_links r = (case l of Inl e \<Rightarrow> [] | Inr (a, b) \<Rightarrow> a)
     \<and> external_links r = (case l of Inl e \<Rightarrow> [] | Inr (a, b) \<Rightarrow> b)"
  by (simp add: run_def split: sum.splits prod.splits)

section \<open>Properties of the text extractor\<close>

lemma levels: "l \<in> {1..<7} \<longleftrightarrow> l = 1 \<or> l = 2 \<or> l = 3 \<or> l = 4 \<or> l = 5 \<or> l = (6::nat)"
  by auto

lemma h_names:
  "h_name 1 = ''h1''" "h_name 2 = ''h2''" "h_name 3 = ''h3''"
  "h_name 4 = ''h4''" "h_name 5 = ''h5''" "h_name 6 = ''h6''"
  by (simp_all add: h_name_def)

lemma level_list: "[1..<7] = [1, 2, 3, 4, 5, 6::nat]"
  by (simp add: upt_rec)

lemma heading_table:
  "map (\<lambda>l. (h_name l, l)) [1..<7] =
     [(''h1'', 1), (''h2'', 2), (''h3'', 3), (''h4'', 4), (''h5'', 5), (''h6'', 6)]"
  by code_simp

lemma heading_level_iff:
  "heading_level t = Some l \<longleftrightarrow> l \<in> {1..<7} \<and> is_tag (h_name l) t"
proof (cases t)
  case (Tag n as cs)
  have "heading_level t = map_of [(''h1'', 1), (''h2'', 2), (''h3'', 3), (''h4'', 4), (''h5'', 5), (''h6'', 6)] n"
    unfolding Tag heading_level.simps heading_table ..
  moreover have "is_tag (h_name l) t \<longleftrightarrow> n = h_name l" by (simp add: Tag)
  ultimately show ?thesis unfolding levels
    using h_names by (auto split: if_splits)
qed simp_all

lemma filter_level:
  "l \<in> {1..<7} \<Longrightarrow>
   filter (\<lambda>x. fst x = l)
     (concat (map (\<lambda>tag. case heading_level tag of
                           None \<Rightarrow> []
                         | Some l \<Rightarrow> if get_text tag \<noteq> [] then [(l, get_text tag)] else []) D))
   = map (\<lambda>tag. (l, get_text tag)) (filter (\<lambda>tag. get_text tag \<noteq> []) (filter (is_tag (h_name l)) D))"
proof (induction D)
  case Nil show ?case by simp
next
  case (Cons t D)
  show ?case
  proof (cases "heading_level t")
    case None
    with heading_level_iff[of t l] Cons show ?thesis by simp
  next
    case (Some l')
    with heading_level_iff[of t l] heading_level_iff[of t l'] Cons show ?thesis by auto
  qed
qed

lemma doc_levels:
  "fst ` set (headings_in_document_order soup) \<subseteq> {1..<7}"
proof
  fix l assume "l \<in> fst ` set (headings_in_document_order soup)"
  then obtain t where "heading_level t = Some l"
    unfolding headings_in_document_order_def
    by (auto split: option.splits if_splits)
  then show "l \<in> {1..<7}" by (simp only: heading_level_iff)
qed

lemma get_headings_grouped:
  "get_headings soup =
     concat (map (\<lambda>l. filter (\<lambda>x. fst x = l) (headings_in_document_order soup)) [1..<7])"
  unfolding get_headings_def headings_in_document_order_def level_headings_def find_all_def
  by (rule arg_cong[where f = concat], rule map_cong[OF refl]) (simp add: filter_level)

lemma mset_group:
  "distinct ks \<Longrightarrow>
   mset (concat (map (\<lambda>l. filter (\<lambda>x. f x = l) xs) ks)) = mset (filter (\<lambda>x. f x \<in> set ks) xs)"
proof (induction ks)
  case Nil show ?case by simp
next
  case (Cons k ks)
  then have IH: "mset (concat (map (\<lambda>l. filter (\<lambda>x. f x = l) xs) ks)) = mset (filter (\<lambda>x. f x \<in> set ks) xs)"
    and k: "k \<notin> set ks" by simp_all
  have "mset (filter (\<lambda>x. f x \<in> set (k # ks)) xs)
      = mset (filter (\<lambda>x. f x = k) xs) + mset (filter (\<lambda>x. f x \<in> set ks) xs)"
    using k by (induction xs) auto
  with IH show ?case by simp
qed

lemma sorted_same_key: "sorted (map f (filter (\<lambda>x. f x = a) xs))"
  by (induction xs) auto

lemma sorted_group:
  "sorted ks \<Longrightarrow> sorted (map f (concat (map (\<lambda>l. filter (\<lambda>x. f x = l) xs) ks)))"
  by (induction ks) (auto simp: sorted_append sorted_same_key)

lemma filter_group:
  "distinct ks \<Longrightarrow> k \<in> set ks \<Longrightarrow>
   filter (\<lambda>x. k = f x) (concat (map (\<lambda>l. filter (\<lambda>x. f x = l) xs) ks)) = filter (\<lambda>x. k = f x) xs"
proof (induction ks)
  case Nil then show ?case by simp
next
  case (Cons a ks)
  have other: "filter (\<lambda>x. k = f x) (concat (map (\<lambda>l. filter (\<lambda>x. f x = l) xs) ks)) = []"
    if "k \<notin> set ks" for k
    using that by (induction ks) (auto simp: filter_empty_conv)
  show ?case
  proof (cases "k = a")
    case True
    with Cons.prems have "k \<notin> set ks" by simp
    from other[OF this] True show ?thesis
      by (simp add: eq_commute[of a] cong: filter_cong)
  next
    case False
    with Cons have "filter (\<lambda>x. k = f x) (concat (map (\<lambda>l. filter (\<lambda>x. f x = l) xs) ks)) = filter (\<lambda>x. k = f x) xs"
      by simp
    moreover have "filter (\<lambda>x. k = f x) (filter (\<lambda>x. f x = a) xs) = []"
      using False by (auto simp: filter_empty_conv)
    ultimately show ?thesis by simp
  qed
qed

lemma group_by_sorted_keys:
  assumes "sorted ks" "distinct ks" "f ` set xs \<subseteq> set ks"
  shows "concat (map (\<lambda>l. filter (\<lambda>x. f x = l) xs) ks) = sort_key f xs"
proof (rule properties_for_sort_key[symmetric])
  have "filter (\<lambda>x. f x \<in> set ks) xs = xs" using assms(3) by (auto simp: filter_id_conv)
  with mset_group[OF assms(2), of f xs]
  show "mset (concat (map (\<lambda>l. filter (\<lambda>x. f x = l) xs) ks)) = mset xs" by simp
next
  fix k assume "k \<in> set (concat (map (\<lambda>l. filter (\<lambda>x. f x = l) xs) ks))"
  then have "f k \<in> set ks" by auto
  from filter_group[OF assms(2) this]
  show "filter (\<lambda>x. f k = f x) (concat (map (\<lambda>l. filter (\<lambda>x. f x = l) xs) ks)) = filter (\<lambda>x. f k = f x) xs" .
next
  show "sorted (map f (concat (map (\<lambda>l. filter (\<lambda>x. f x = l) xs) ks)))"
    by (rule sorted_group[OF assms(1)])
qed

text \<open>
  Claim C4, as stated: the headings list is the list of the \<^verbatim>\<open>h1\<close> to \<^verbatim>\<open>h6\<close>
  elements with non-empty text in document order. It fails on a page whose \<^verbatim>\<open>h2\<close>
  comes before its \<^verbatim>\<open>h1\<close>: the extractor lists the \<^verbatim>\<open>h1\<close> first.
\<close>

theorem get_headings_not_document_order:
  "get_headings (Tag ''[document]'' []
       [Tag ''h2'' [] [NavigableString ''A''], Tag ''h1'' [] [NavigableString ''B'']])
   \<noteq> headings_in_document_order (Tag ''[document]'' []
       [Tag ''h2'' [] [NavigableString ''A''], Tag ''h1'' [] [NavigableString ''B'']])"
  by code_simp

text \<open>
  Claim C4, amended: the headings list holds exactly the \<^verbatim>\<open>h1\<close> to \<^verbatim>\<open>h6\<close> elements
  with non-empty text, each tagged with its level, ordered by level (all \<^verbatim>\<open>h1\<close>, then
  all \<^verbatim>\<open>h2\<close>, and so on) and in document order within one level: it is the
  document-order list sorted by level with a stable sort.
\<close>

theorem get_headings_sorted_by_level:
  "get_headings soup = sort_key fst (headings_in_document_order soup)"
  unfolding get_headings_grouped
  by (rule group_by_sorted_keys) (use doc_levels in auto)

section \<open>Properties of the image extractor\<close>

lemma find_loop_new:
  "\<exists>new. fst (find_loop uj pu imgs seen found) = found @ new
     \<and> distinct (map fst new) \<and> set (map fst new) \<inter> seen = {}
     \<and> snd (find_loop uj pu imgs seen found) = seen \<union> set (map fst new)"
proof (induction imgs arbitrary: seen found)
  case Nil show ?case by simp
next
  case (Cons img imgs)
  let ?src = "or_else (get img ''src'')
                (or_else (get img ''data-src'') (or_else (get img ''data-lazy-src'') []))"
  let ?abs = "uj pu ?src"
  let ?alt = "or_else (get img ''alt'') []"
  show ?case
  proof (cases "?src = [] \<or> startswith ?src ''data:'' \<or> ?abs \<in> seen")
    case True
    then have "find_loop uj pu (img # imgs) seen found = find_loop uj pu imgs seen found"
      by (auto simp: Let_def)
    with Cons.IH[of seen found] show ?thesis by simp
  next
    case False
    then have step: "find_loop uj pu (img # imgs) seen found =
        find_loop uj pu imgs (insert ?abs seen) (found @ [(?abs, strip ?alt)])"
      by (auto simp: Let_def)
    from Cons.IH[of "insert ?abs seen" "found @ [(?abs, strip ?alt)]"]
    obtain new where new: "fst (find_loop uj pu imgs (insert ?abs seen) (found @ [(?abs, strip ?alt)]))
          = (found @ [(?abs, strip ?alt)]) @ new"
        "distinct (map fst new)" "set (map fst new) \<inter> insert ?abs seen = {}"
        "snd (find_loop uj pu imgs (insert ?abs seen) (found @ [(?abs, strip ?alt)]))
          = insert ?abs seen \<union> set (map fst new)"
      by blast
    let ?new = "(?abs, strip ?alt) # new"
    have "fst (find_loop uj pu (img # imgs) seen found) = found @ ?new"
      using new(1) step by simp
    moreover have "distinct (map fst ?new)" using new(2,3) by auto
    moreover have "set (map fst ?new) \<inter> seen = {}" using new(3) False by auto
    moreover have "snd (find_loop uj pu (img # imgs) seen found) = seen \<union> set (map fst ?new)"
      using new(4) step by auto
    ultimately show ?thesis by blast
  qed
qed

lemma find_image_urls_new:
  "distinct (map fst (fst (find_image_urls uj self soup pu)))
   \<and> set (map fst (fst (find_image_urls uj self soup pu))) \<inter> seen_urls self = {}
   \<and> seen_urls (snd (find_image_urls uj self soup pu))
        = seen_urls self \<union> set (map fst (fst (find_image_urls uj self soup pu)))"
proof -
  obtain found seen where f: "find_loop uj pu (find_all soup ''img'') (seen_urls self) [] = (found, seen)"
    by (cases "find_loop uj pu (find_all soup ''img'') (seen_urls self) []")
  from find_loop_new[of uj pu "find_all soup ''img''" "seen_urls self" "[]"] f
  have "distinct (map fst found)" "set (map fst found) \<inter> seen_urls self = {}"
    "seen = seen_urls self \<union> set (map fst found)"
    by auto
  moreover have "find_image_urls uj self soup pu = (found, self\<lparr>seen_urls := seen\<rparr>)"
    by (simp add: find_image_urls_def f)
  ultimately show ?thesis by simp
qed

lemma size_filter_seen_urls: "size_filter env self data = Inr self' \<Longrightarrow> seen_urls self' = seen_urls self"
  by (auto simp: size_filter_def split: sum.splits prod.splits if_splits)

lemma process_image_seen_urls: "seen_urls (snd (process_image env self u pu alt)) = seen_urls self"
  by (auto simp: process_image_def split: sum.splits prod.splits if_splits dest: size_filter_seen_urls)

lemma process_all_seen_urls: "seen_urls (snd (process_all env self pu ius)) = seen_urls self"
proof (induction ius arbitrary: self)
  case Nil show ?case by simp
next
  case (Cons iu ius)
  obtain u alt where iu: "iu = (u, alt)" by (cases iu)
  obtain out self' where p: "process_image env self u pu alt = (out, self')" by (cases "process_image env self u pu alt")
  have "seen_urls self' = seen_urls self" using process_image_seen_urls[of env self u pu alt] p by simp
  moreover obtain rs self'' where r: "process_all env self' pu ius = (rs, self'')"
    by (cases "process_all env self' pu ius")
  ultimately show ?case using Cons[of self'] iu p by simp
qed

lemma extract_images_new:
  "distinct (snd (fst (extract_images uj env self soup pu)))
   \<and> set (snd (fst (extract_images uj env self soup pu))) \<inter> seen_urls self = {}
   \<and> seen_urls (snd (extract_images uj env self soup pu))
        = seen_urls self \<union> set (snd (fst (extract_images uj env self soup pu)))"
proof -
  obtain ius self' where f: "find_image_urls uj self soup pu = (ius, self')"
    by (cases "find_image_urls uj self soup pu")
  obtain rs self'' where p: "process_all env self' pu ius = (rs, self'')"
    by (cases "process_all env self' pu ius")
  have e: "extract_images uj env self soup pu = ((rs, map fst ius), self'')"
    by (simp add: extract_images_def f p)
  have "seen_urls self'' = seen_urls self'"
    using process_all_seen_urls[of env self' pu ius] p by simp
  with find_image_urls_new[of uj self soup pu] f show ?thesis unfolding e by simp
qed

text \<open>
  Claim C10. Over all the pages one \<^verbatim>\<open>ImageExtractor\<close> is run on, in the order
  crawled, the image URLs collected and handed to \<^verbatim>\<open>_process_image\<close> are pairwise
  different, and none of them was in \<^verbatim>\<open>_seen_urls\<close> before: a URL seen on an earlier
  page is skipped on every later page.
\<close>

theorem image_urls_processed_once:
  "distinct (concat (fst (extract_pages uj env self pages)))
   \<and> set (concat (fst (extract_pages uj env self pages))) \<inter> seen_urls self = {}"
proof (induction pages arbitrary: self)
  case Nil show ?case by simp
next
  case (Cons page pages)
  obtain soup pu where page: "page = (soup, pu)" by (cases page)
  obtain rs processed self' where e: "extract_images uj env self soup pu = ((rs, processed), self')"
    by (cases "extract_images uj env self soup pu") auto
  obtain rest self'' where r: "extract_pages uj env self' pages = (rest, self'')"
    by (cases "extract_pages uj env self' pages")
  from extract_images_new[of uj env self soup pu] e
  have 1: "distinct processed" "set processed \<inter> seen_urls self = {}"
    "seen_urls self' = seen_urls self \<union> set processed" by simp_all
  from Cons[of self'] r
  have 2: "distinct (concat rest)" "set (concat rest) \<inter> seen_urls self' = {}" by simp_all
  have "extract_pages uj env self (page # pages) = (processed # rest, self'')"
    by (simp add: page e r)
  with 1 2 show ?case by auto
qed

section \<open>Properties of URL normalisation\<close>

text \<open>
  Claim C5 says that normalising twice is normalising once. The code strips white
  space at the two ends of its input only: a space in front of the fragment is at the
  end of the path once the fragment is gone, and a second normalisation strips it.
\<close>

theorem normalize_url_not_idempotent:
  "normalize_url lib ''http://h/a #x'' = Some ''http://h/a ''
   \<and> normalize_url lib ''http://h/a '' = Some ''http://h/a''"
  by code_simp


lemma set_first_occurrences [simp]: "set (first_occurrences xs) = set xs"
  by (induction xs) auto

lemma distinct_first_occurrences [simp]: "distinct (first_occurrences xs)"
  by (induction xs) auto

lemma filter_swap: "filter P (filter Q xs) = filter Q (filter P xs)"
  by (induction xs) auto

lemma filter_first_occurrences:
  "filter P (first_occurrences xs) = first_occurrences (filter P xs)"
proof (induction xs)
  case Nil show ?case by simp
next
  case (Cons x xs)
  have comm: "filter P (filter (\<lambda>y. y \<noteq> x) (first_occurrences xs))
      = filter (\<lambda>y. y \<noteq> x) (first_occurrences (filter P xs))"
    by (subst filter_swap) (simp only: Cons.IH)
  show ?case
  proof (cases "P x")
    case True with comm show ?thesis by simp
  next
    case False
    then have "x \<notin> set (first_occurrences (filter P xs))" by simp
    then have "filter (\<lambda>y. y \<noteq> x) (first_occurrences (filter P xs)) = first_occurrences (filter P xs)"
      by (auto simp: filter_id_conv)
    with comm False show ?thesis by simp
  qed
qed

lemma first_occurrences_snoc:
  "first_occurrences (xs @ [x]) =
     (if x \<in> set xs then first_occurrences xs else first_occurrences xs @ [x])"
  by (induction xs) auto

lemma values_of_snoc:
  "values_of k (ps @ [(n, v)]) = values_of k ps @ (if n = k then [v] else [])"
  by (simp add: values_of_def)

lemma dict_append_table:
  "distinct ks \<Longrightarrow>
   dict_append (map (\<lambda>k. (k, g k)) ks) n v =
     (if n \<in> set ks then map (\<lambda>k. (k, if k = n then g k @ [v] else g k)) ks
      else map (\<lambda>k. (k, g k)) ks @ [(n, [v])])"
  by (induction ks) auto

lemma parse_qs_table:
  "foldl (\<lambda>d (name, v). dict_append d name v) [] ps =
     map (\<lambda>k. (k, values_of k ps)) (first_occurrences (map fst ps))"
proof (induction ps rule: rev_induct)
  case Nil show ?case by simp
next
  case (snoc p ps)
  obtain n v where p: "p = (n, v)" by (cases p)
  show ?case
    unfolding p
    by (simp add: snoc.IH dict_append_table first_occurrences_snoc values_of_snoc image_iff
          cong: map_cong)
      (auto simp: values_of_def filter_empty_conv)
qed

lemma values_of_filter: "P k \<Longrightarrow> values_of k (filter (\<lambda>p. P (fst p)) ps) = values_of k ps"
  by (auto simp: values_of_def filter_filter intro!: arg_cong[where f = "map snd"] filter_cong)

lemma filtered_table:
  "filtered lib q =
     map (\<lambda>k. (k, values_of k (kept_in_order lib q))) (first_occurrences (map fst (kept_in_order lib q)))"
proof -
  let ?P = "\<lambda>k. \<not> STRIP_PARAMS_match k"
  let ?ps = "parse_qsl lib q"
  have kept: "kept_in_order lib q = filter (\<lambda>p. ?P (fst p)) ?ps"
    by (simp add: kept_in_order_def case_prod_unfold)
  have "filtered lib q =
      filter (\<lambda>(k, vs). ?P k) (map (\<lambda>k. (k, values_of k ?ps)) (first_occurrences (map fst ?ps)))"
    by (simp add: filtered_def parse_qs_def parse_qs_table)
  also have "\<dots> = map (\<lambda>k. (k, values_of k ?ps)) (filter ?P (first_occurrences (map fst ?ps)))"
    by (simp add: filter_map comp_def)
  also have "\<dots> = map (\<lambda>k. (k, values_of k (kept_in_order lib q)))
                     (filter ?P (first_occurrences (map fst ?ps)))"
  proof (rule map_cong[OF refl])
    fix k assume "k \<in> set (filter ?P (first_occurrences (map fst ?ps)))"
    then have "?P k" by simp
    from values_of_filter[of ?P k ?ps, OF this]
    show "(k, values_of k ?ps) = (k, values_of k (kept_in_order lib q))"
      unfolding kept by simp
  qed
  also have "filter ?P (first_occurrences (map fst ?ps)) = first_occurrences (map fst (kept_in_order lib q))"
    unfolding kept by (simp add: filter_first_occurrences filter_map comp_def)
  finally show ?thesis .
qed

text \<open>
  Claim C6, as stated: the parameters written to the normalised query are the
  remaining parameters in their original order. With a key that occurs twice, around
  another key, the two values are moved together.
\<close>

theorem repeated_key_order_not_kept:
  "dict_pairs (filtered example_lib ''a=1&b=2&a=3'') \<noteq> kept_in_order example_lib ''a=1&b=2&a=3''
   \<and> normalize_url example_lib ''http://h/p?a=1&b=2&a=3'' = Some ''http://h/p?a=1&a=3&b=2''"
  by code_simp

text \<open>
  Claim C6, amended: the parameters written to the normalised query are exactly the
  parameters whose decoded key matches no tracking prefix, grouped by key; the keys
  are in the order of their first occurrence and the values of one key in their
  original order. The query is these parameters, encoded and joined by \<^verbatim>\<open>&\<close>.
\<close>

theorem normalize_query_groups_by_key:
  "dict_pairs (filtered lib q) = grouped_by_key (kept_in_order lib q)
   \<and> normalize_query lib q =
       join ''&'' (map (\<lambda>(k, v). quote_plus lib k @ ''='' @ quote_plus lib v)
                     (grouped_by_key (kept_in_order lib q)))"
proof -
  have "dict_pairs (filtered lib q) = grouped_by_key (kept_in_order lib q)"
    unfolding filtered_table dict_pairs_def grouped_by_key_def
    by (simp add: comp_def)
  then show ?thesis by (simp add: normalize_query_def urlencode_def)
qed

section \<open>Properties of the frontier\<close>

lemma get_next_loop_fresh:
  "get_next_loop lib vis q = (Some (u, d), q') \<Longrightarrow> hash lib u \<notin> vis"
proof (induction lib vis q rule: get_next_loop.induct)
  case (1 lib vis q)
  from "1.prems" show ?case
    by (subst (asm) get_next_loop.simps)
       (auto split: if_splits option.splits dest: "1.IH")
qed

lemma get_next_fresh:
  "get_next lib self = (Some (u, d), self') \<Longrightarrow> hash lib u \<notin> visited self"
  by (auto simp: get_next_def split: prod.splits dest: get_next_loop_fresh)

lemma add_url_visited:
  "normalize_url lib u = Some n \<Longrightarrow> hash lib n \<in> visited self \<Longrightarrow>
   add_url lib self u d = (Inr False, self)"
  by (simp add: add_url_def Let_def)

lemma add_url_keeps_visited: "visited (snd (add_url lib self u d)) = visited self"
  by (simp add: add_url_def Let_def split: option.splits sum.splits)

lemma get_next_keeps_visited: "visited (snd (get_next lib self)) = visited self"
  by (simp add: get_next_def split: prod.splits)

lemma call_visited_mono: "visited self \<subseteq> visited (snd (call lib self c))"
proof (cases c)
  case (Add_url u d)
  with add_url_keeps_visited[of lib self u d] show ?thesis by (auto split: prod.splits)
next
  case Get_next
  with get_next_keeps_visited[of lib self] show ?thesis by (auto split: prod.splits)
next
  case (Mark_visited u)
  then show ?thesis by (auto simp: mark_visited_def)
qed

lemma calls_visited_mono:
  "(s, c, out, s') \<in> set (calls lib s0 cs) \<Longrightarrow> visited s0 \<subseteq> visited s"
proof (induction cs arbitrary: s0)
  case Nil then show ?case by simp
next
  case (Cons c0 cs)
  obtain out0 s1 where c0: "call lib s0 c0 = (out0, s1)" by (cases "call lib s0 c0")
  from call_visited_mono[of s0 lib c0] c0 have mono: "visited s0 \<subseteq> visited s1" by simp
  from Cons.prems c0 have "(s, c, out, s') = (s0, c0, out0, s1) \<or> (s, c, out, s') \<in> set (calls lib s1 cs)"
    by simp
  then show ?case
  proof
    assume "(s, c, out, s') = (s0, c0, out0, s1)" then show ?thesis by simp
  next
    assume "(s, c, out, s') \<in> set (calls lib s1 cs)"
    from Cons.IH[OF this] mono show ?thesis by blast
  qed
qed

lemma calls_are_calls:
  "(s, c, out, s') \<in> set (calls lib s0 cs) \<Longrightarrow> call lib s c = (out, s')"
proof (induction cs arbitrary: s0)
  case Nil then show ?case by simp
next
  case (Cons c0 cs)
  obtain out0 s1 where c0: "call lib s0 c0 = (out0, s1)" by (cases "call lib s0 c0")
  with Cons show ?case by auto
qed

text \<open>
  Claim C1. Take a frontier in which the hash \<open>h\<close> is in the visited set and run any
  sequence of \<^verbatim>\<open>add_url\<close>, \<^verbatim>\<open>get_next\<close> and \<^verbatim>\<open>mark_visited\<close> calls on it. No
  \<^verbatim>\<open>get_next\<close> of the run returns a URL whose hash is \<open>h\<close>, and every \<^verbatim>\<open>add_url\<close> of
  the run for a URL that normalises to a URL of hash \<open>h\<close> returns \<^verbatim>\<open>False\<close> and leaves
  the frontier as it was.
\<close>

theorem visited_never_returned_nor_enqueued:
  assumes "h \<in> visited s0"
    and "(s, c, out, s') \<in> set (calls lib s0 cs)"
  shows "(\<forall>u d. out = Got (Some (u, d)) \<longrightarrow> hash lib u \<noteq> h)
       \<and> (\<forall>u d n. c = Add_url u d \<and> normalize_url lib u = Some n \<and> hash lib n = h
             \<longrightarrow> out = Added (Inr False) \<and> s' = s)"
proof -
  from calls_visited_mono[OF assms(2)] assms(1) have h: "h \<in> visited s" by blast
  from calls_are_calls[OF assms(2)] have c: "call lib s c = (out, s')" .
  have "hash lib u \<noteq> h" if "out = Got (Some (u, d))" for u d
  proof -
    from c that have "get_next lib s = (Some (u, d), s')"
      by (cases c) (auto split: prod.splits)
    from get_next_fresh[OF this] h show ?thesis by blast
  qed
  moreover have "out = Added (Inr False) \<and> s' = s"
    if "c = Add_url u d" "normalize_url lib u = Some n" "hash lib n = h" for u d n
    using c that add_url_visited[of lib u n s d] h by auto
  ultimately show ?thesis by blast
qed

theorem visited_never_returned_nor_enqueued_witness:
  "''http://h/a'' \<in> visited
       \<lparr>allowed_domains = {''h''}, max_depth = 3,
        queue = [QueueEntry 0 ''http://h/a'', QueueEntry 1 ''http://h/b''],
        visited = {''http://h/a''}, enqueued = {''http://h/a'', ''http://h/b''}\<rparr>
   \<and> (\<lparr>allowed_domains = {''h''}, max_depth = 3,
        queue = [QueueEntry 0 ''http://h/a'', QueueEntry 1 ''http://h/b''],
        visited = {''http://h/a''}, enqueued = {''http://h/a'', ''http://h/b''}\<rparr>,
       Get_next, Got (Some (''http://h/b'', 1)),
       \<lparr>allowed_domains = {''h''}, max_depth = 3, queue = [],
        visited = {''http://h/a''}, enqueued = {''http://h/a'', ''http://h/b''}\<rparr>)
      \<in> set (calls example_lib
            \<lparr>allowed_domains = {''h''}, max_depth = 3,
             queue = [QueueEntry 0 ''http://h/a'', QueueEntry 1 ''http://h/b''],
             visited = {''http://h/a''}, enqueued = {''http://h/a'', ''http://h/b''}\<rparr>
            [Get_next, Add_url ''http://h/a#top'' 1])
   \<and> hash example_lib ''http://h/b'' \<noteq> ''http://h/a''"
proof -
  let ?s0 = "\<lparr>allowed_domains = {''h''}, max_depth = 3,
        queue = [QueueEntry 0 ''http://h/a'', QueueEntry 1 ''http://h/b''],
        visited = {''http://h/a''}, enqueued = {''http://h/a'', ''http://h/b''}\<rparr>"
  let ?s1 = "\<lparr>allowed_domains = {''h''}, max_depth = 3, queue = [],
        visited = {''http://h/a''}, enqueued = {''http://h/a'', ''http://h/b''}\<rparr>"
  have 1: "''http://h/a'' \<in> visited ?s0" by simp
  have 2: "(?s0, Get_next, Got (Some (''http://h/b'', 1)), ?s1)
      \<in> set (calls example_lib ?s0 [Get_next, Add_url ''http://h/a#top'' 1])"
    by code_simp
  from visited_never_returned_nor_enqueued[OF 1 2]
  have "hash example_lib ''http://h/b'' \<noteq> ''http://h/a''" by blast
  with 1 2 show ?thesis by blast
qed

subsection \<open>The queue is a heap\<close>

lemma siftdown_loop_heap:
  assumes "pos < length heap"
    and "\<forall>i. 0 < i \<and> i < length heap \<and> i \<noteq> pos \<longrightarrow>
           entry_depth ((heap[pos := x]) ! (parent_pos i)) \<le> entry_depth ((heap[pos := x]) ! i)"
    and "0 < pos \<longrightarrow> (\<forall>c. 0 < c \<and> c < length heap \<and> parent_pos c = pos \<longrightarrow>
           entry_depth (heap ! (parent_pos pos)) \<le> entry_depth (heap ! c))"
  shows "heap_ok (siftdown_loop heap 0 pos x)"
  using assms
proof (induction heap "0::nat" pos x rule: siftdown_loop.induct)
  case (1 heap pos x)
  let ?pp = "parent_pos pos"
  let ?V = "heap[pos := x]"
  note len = \<open>pos < length heap\<close>
  note A = "1.prems"(2)
  note B = "1.prems"(3)
  show ?case
  proof (cases "0 < pos \<and> entry_lt x (heap ! ?pp)")
    case False
    then have res: "siftdown_loop heap 0 pos x = ?V"
      by (subst siftdown_loop.simps) (auto simp: Let_def)
    have "entry_depth (?V ! (parent_pos i)) \<le> entry_depth (?V ! i)"
      if i: "0 < i" "i < length ?V" for i
    proof (cases "i = pos")
      case neq: False
      with A i show ?thesis by simp
    next
      case True
      with i have "0 < pos" by simp
      with False have "\<not> entry_lt x (heap ! ?pp)" by simp
      moreover have "?pp \<noteq> pos" using parent_pos_less[OF \<open>0 < pos\<close>] by simp
      ultimately show ?thesis using True len by (simp add: entry_lt_def)
    qed
    then show ?thesis unfolding res heap_ok_def by blast
  next
    case True
    then have pos0: "0 < pos" and lt: "entry_lt x (heap ! ?pp)" by simp_all
    have pp: "?pp < pos" using parent_pos_less[OF pos0] .
    let ?h1 = "heap[pos := heap ! ?pp]"
    let ?V1 = "?h1[?pp := x]"
    have res: "siftdown_loop heap 0 pos x = siftdown_loop ?h1 0 ?pp x"
      using True by (subst siftdown_loop.simps) (simp add: Let_def)
    have len1: "?pp < length ?h1" using pp len by simp
    have V1: "?V1 ! j = (if j = ?pp then x else if j = pos then heap ! ?pp else heap ! j)"
      if "j < length heap" for j
      using that pp len by (simp add: nth_list_update)
    have V: "?V ! j = (if j = pos then x else heap ! j)" if "j < length heap" for j
      using that by (simp add: nth_list_update)
    have A1: "\<forall>i. 0 < i \<and> i < length ?h1 \<and> i \<noteq> ?pp \<longrightarrow>
        entry_depth (?V1 ! (parent_pos i)) \<le> entry_depth (?V1 ! i)"
    proof (intro allI impI)
      fix i assume i: "0 < i \<and> i < length ?h1 \<and> i \<noteq> ?pp"
      then have i0: "0 < i" and il: "i < length heap" and ipp: "i \<noteq> ?pp" by simp_all
      have pil: "parent_pos i < length heap" using parent_pos_less[OF i0] il by simp
      note vi = V1[OF il] and vp = V1[OF pil]
      show "entry_depth (?V1 ! (parent_pos i)) \<le> entry_depth (?V1 ! i)"
      proof (cases "i = pos")
        case True
        with lt pp show ?thesis
          unfolding vi vp by (simp add: entry_lt_def)
      next
        case ipos: False
        show ?thesis
        proof (cases "parent_pos i = pos")
          case True
          with B pos0 i0 il have "entry_depth (heap ! ?pp) \<le> entry_depth (heap ! i)" by blast
          with True ipos ipp pp show ?thesis
            unfolding vi vp by simp
        next
          case parpos: False
          from A i0 il ipos have "entry_depth (?V ! (parent_pos i)) \<le> entry_depth (?V ! i)"
            by blast
          with parpos ipos have old: "entry_depth (heap ! (parent_pos i)) \<le> entry_depth (heap ! i)"
            unfolding V[OF il] V[OF pil] by simp
          show ?thesis
          proof (cases "parent_pos i = ?pp")
            case True
            with old lt ipos ipp show ?thesis
              unfolding vi vp by (simp add: entry_lt_def)
          next
            case False
            with old parpos ipos ipp show ?thesis
              unfolding vi vp by simp
          qed
        qed
      qed
    qed
    have B1: "0 < ?pp \<longrightarrow> (\<forall>c. 0 < c \<and> c < length ?h1 \<and> parent_pos c = ?pp \<longrightarrow>
        entry_depth (?h1 ! (parent_pos ?pp)) \<le> entry_depth (?h1 ! c))"
    proof (intro allI impI)
      fix c assume pp0: "0 < ?pp" and c: "0 < c \<and> c < length ?h1 \<and> parent_pos c = ?pp"
      then have c0: "0 < c" and cl: "c < length heap" and cpar: "parent_pos c = ?pp" by simp_all
      have gp: "parent_pos ?pp < ?pp" using parent_pos_less[OF pp0] .
      have ppl: "?pp < length heap" using pp len by simp
      from A pp0 ppl pp have "entry_depth (?V ! (parent_pos ?pp)) \<le> entry_depth (?V ! ?pp)"
        by (metis less_irrefl_nat)
      with gp pp ppl have g: "entry_depth (heap ! (parent_pos ?pp)) \<le> entry_depth (heap ! ?pp)"
        by (simp add: nth_list_update)
      have h1gp: "?h1 ! (parent_pos ?pp) = heap ! (parent_pos ?pp)"
        using gp pp by (simp add: nth_list_update)
      show "entry_depth (?h1 ! (parent_pos ?pp)) \<le> entry_depth (?h1 ! c)"
      proof (cases "c = pos")
        case True
        with g len show ?thesis unfolding h1gp by simp
      next
        case False
        with A c0 cl have "entry_depth (?V ! (parent_pos c)) \<le> entry_depth (?V ! c)" by blast
        with False cpar pp cl ppl have "entry_depth (heap ! ?pp) \<le> entry_depth (heap ! c)"
          by (simp add: nth_list_update)
        with g False show ?thesis unfolding h1gp by (simp add: nth_list_update)
      qed
    qed
    from "1.hyps"[OF _ refl refl _ len1 A1 B1] pos0 lt
    show ?thesis unfolding res by simp
  qed
qed


lemma child_iff: "0 < c \<and> parent_pos c = p \<longleftrightarrow> c = 2 * p + 1 \<or> c = 2 * p + 2"
  unfolding parent_pos_def by arith

lemma mset_move:
  assumes "i < length xs" "j < length xs" "i \<noteq> j"
  shows "mset (xs[i := xs ! j, j := x]) = mset (xs[i := x])"
  using assms by (simp add: mset_update nth_list_update)

lemma siftdown_loop_mset:
  "pos < length heap \<Longrightarrow> mset (siftdown_loop heap startpos pos x) = mset (heap[pos := x])"
proof (induction heap startpos pos x rule: siftdown_loop.induct)
  case (1 heap startpos pos x)
  show ?case
  proof (cases "startpos < pos \<and> entry_lt x (heap ! parent_pos pos)")
    case False
    then show ?thesis by (subst siftdown_loop.simps) (auto simp: Let_def)
  next
    case True
    then have pos0: "0 < pos" by simp
    have pp: "parent_pos pos < pos" using parent_pos_less[OF pos0] .
    have res: "siftdown_loop heap startpos pos x
        = siftdown_loop (heap[pos := heap ! parent_pos pos]) startpos (parent_pos pos) x"
      using True by (subst siftdown_loop.simps) (simp add: Let_def)
    have "mset (siftdown_loop (heap[pos := heap ! parent_pos pos]) startpos (parent_pos pos) x)
        = mset (heap[pos := heap ! parent_pos pos, parent_pos pos := x])"
      using "1.IH"[OF _ refl refl] True pp "1.prems" by simp
    also have "\<dots> = mset (heap[pos := x])"
      using mset_move[of pos heap "parent_pos pos" x] pp "1.prems" by simp
    finally show ?thesis unfolding res .
  qed
qed

lemma siftup_loop_mset:
  assumes "pos < length heap" "endpos = length heap" "childpos = 2 * pos + 1"
    and "siftup_loop heap endpos pos childpos = (heap', pos')"
  shows "pos' < length heap' \<and> mset (heap'[pos' := x]) = mset (heap[pos := x])"
  using assms
proof (induction heap endpos pos childpos arbitrary: heap' pos' rule: siftup_loop.induct)
  case (1 heap endpos pos childpos)
  show ?case
  proof (cases "childpos < endpos")
    case False
    with "1.prems"(4) have "heap' = heap" "pos' = pos"
      by (subst (asm) siftup_loop.simps, simp)+
    with "1.prems"(1) show ?thesis by simp
  next
    case True
    define c where "c = (if childpos + 1 < endpos \<and> \<not> entry_lt (heap ! childpos) (heap ! (childpos + 1))
                         then childpos + 1 else childpos)"
    have c: "c < length heap" "pos < c" "c \<noteq> pos"
      using True "1.prems"(2,3) by (auto simp: c_def)
    have res: "siftup_loop heap endpos pos childpos
        = siftup_loop (heap[pos := heap ! c]) endpos c (2 * c + 1)"
      using True by (subst siftup_loop.simps) (simp add: Let_def c_def)
    with "1.prems"(4) have rec: "siftup_loop (heap[pos := heap ! c]) endpos c (2 * c + 1) = (heap', pos')"
      by simp
    have "pos' < length heap' \<and> mset (heap'[pos' := x]) = mset (heap[pos := heap ! c, c := x])"
      using "1.IH"[OF True refl c_def _ _ _ rec] c "1.prems"(2) by simp
    moreover have "mset (heap[pos := heap ! c, c := x]) = mset (heap[pos := x])"
      using mset_move[of pos heap c x] c "1.prems"(1) by simp
    ultimately show ?thesis by simp
  qed
qed


lemma siftup_loop_hole:
  assumes "pos < length heap" "endpos = length heap" "childpos = 2 * pos + 1"
    and "\<forall>i. 0 < i \<and> i < length heap \<and> i \<noteq> pos \<and> parent_pos i \<noteq> pos \<longrightarrow>
           entry_depth (heap ! parent_pos i) \<le> entry_depth (heap ! i)"
    and "0 < pos \<longrightarrow> (\<forall>c. 0 < c \<and> c < length heap \<and> parent_pos c = pos \<longrightarrow>
           entry_depth (heap ! parent_pos pos) \<le> entry_depth (heap ! c))"
    and "siftup_loop heap endpos pos childpos = (heap', pos')"
  shows "length heap' = length heap \<and> pos' < length heap
       \<and> (\<forall>i. 0 < i \<and> i < length heap \<and> i \<noteq> pos' \<longrightarrow>
             parent_pos i \<noteq> pos' \<and> entry_depth (heap' ! parent_pos i) \<le> entry_depth (heap' ! i))"
  using assms
proof (induction heap endpos pos childpos arbitrary: heap' pos' rule: siftup_loop.induct)
  case (1 heap endpos pos childpos)
  note len = "1.prems"(1) and e = "1.prems"(2) and cp = "1.prems"(3)
    and J1 = "1.prems"(4) and J2 = "1.prems"(5)
  show ?case
  proof (cases "childpos < endpos")
    case False
    with "1.prems"(6) have eq: "heap' = heap" "pos' = pos"
      by (subst (asm) siftup_loop.simps, simp)+
    have "parent_pos i \<noteq> pos \<and> entry_depth (heap ! parent_pos i) \<le> entry_depth (heap ! i)"
      if i: "0 < i" "i < length heap" "i \<noteq> pos" for i
    proof -
      have "parent_pos i \<noteq> pos"
      proof
        assume "parent_pos i = pos"
        with i(1) child_iff[of i pos] have "i = 2 * pos + 1 \<or> i = 2 * pos + 2" by simp
        with False e cp i(2) show False by auto
      qed
      with J1 i show ?thesis by blast
    qed
    with len show ?thesis unfolding eq by blast
  next
    case True
    define c where "c = (if childpos + 1 < endpos \<and> \<not> entry_lt (heap ! childpos) (heap ! (childpos + 1))
                         then childpos + 1 else childpos)"
    have c: "c < length heap" "pos < c" using True e cp by (auto simp: c_def)
    have cpar: "0 < c" "parent_pos c = pos"
      using child_iff[of c pos] cp by (auto simp: c_def)
    have smaller: "entry_depth (heap ! c) \<le> entry_depth (heap ! s)"
      if "0 < s" "s < length heap" "parent_pos s = pos" for s
    proof -
      from that child_iff[of s pos] have "s = 2 * pos + 1 \<or> s = 2 * pos + 2" by simp
      with that(2) e cp show ?thesis
        by (auto simp: c_def entry_lt_def)
    qed
    let ?h1 = "heap[pos := heap ! c]"
    have h1: "?h1 ! j = (if j = pos then heap ! c else heap ! j)" if "j < length heap" for j
      using that by (simp add: nth_list_update)
    have res: "siftup_loop heap endpos pos childpos = siftup_loop ?h1 endpos c (2 * c + 1)"
      using True by (subst siftup_loop.simps) (simp add: Let_def c_def)
    with "1.prems"(6) have rec: "siftup_loop ?h1 endpos c (2 * c + 1) = (heap', pos')" by simp
    have J1': "\<forall>i. 0 < i \<and> i < length ?h1 \<and> i \<noteq> c \<and> parent_pos i \<noteq> c \<longrightarrow>
           entry_depth (?h1 ! parent_pos i) \<le> entry_depth (?h1 ! i)"
    proof (intro allI impI)
      fix i assume "0 < i \<and> i < length ?h1 \<and> i \<noteq> c \<and> parent_pos i \<noteq> c"
      then have i: "0 < i" "i < length heap" "i \<noteq> c" "parent_pos i \<noteq> c" by simp_all
      have pl: "parent_pos i < length heap" using parent_pos_less[OF i(1)] i(2) by simp
      have pne: "parent_pos i \<noteq> i" using parent_pos_less[OF i(1)] by simp
      note vi = h1[OF i(2)] and vp = h1[OF pl]
      show "entry_depth (?h1 ! parent_pos i) \<le> entry_depth (?h1 ! i)"
      proof (cases "i = pos")
        case True
        with i(1) J2 c cpar have "entry_depth (heap ! parent_pos pos) \<le> entry_depth (heap ! c)"
          by blast
        with True pne show ?thesis unfolding vi vp by simp
      next
        case ipos: False
        show ?thesis
        proof (cases "parent_pos i = pos")
          case True
          from smaller[OF i(1,2) True] True ipos show ?thesis unfolding vi vp by simp
        next
          case False
          with J1 i ipos have "entry_depth (heap ! parent_pos i) \<le> entry_depth (heap ! i)" by blast
          with False ipos show ?thesis unfolding vi vp by simp
        qed
      qed
    qed
    have J2': "0 < c \<longrightarrow> (\<forall>g. 0 < g \<and> g < length ?h1 \<and> parent_pos g = c \<longrightarrow>
           entry_depth (?h1 ! parent_pos c) \<le> entry_depth (?h1 ! g))"
    proof (intro allI impI)
      fix g assume "0 < c" and "0 < g \<and> g < length ?h1 \<and> parent_pos g = c"
      then have g: "0 < g" "g < length heap" "parent_pos g = c" by simp_all
      have "c < g" using parent_pos_less[OF g(1)] g(3) by simp
      with c have gne: "g \<noteq> pos" by simp
      from J1 g gne c have "entry_depth (heap ! c) \<le> entry_depth (heap ! g)"
        by (metis less_irrefl_nat)
      with gne len show "entry_depth (?h1 ! parent_pos c) \<le> entry_depth (?h1 ! g)"
        unfolding cpar(2) h1[OF g(2)] h1[OF len] by simp
    qed
    have "length heap' = length ?h1 \<and> pos' < length ?h1
       \<and> (\<forall>i. 0 < i \<and> i < length ?h1 \<and> i \<noteq> pos' \<longrightarrow>
             parent_pos i \<noteq> pos' \<and> entry_depth (heap' ! parent_pos i) \<le> entry_depth (heap' ! i))"
      using "1.IH"[OF True refl c_def _ _ refl J1' J2' rec] c e by simp
    then show ?thesis by simp
  qed
qed

lemma heap_ok_siftdown_append:
  assumes "heap_ok heap"
  shows "heap_ok (heappush heap item)"
proof -
  let ?h = "heap @ [item]"
  let ?pos = "length heap"
  have V: "?h[?pos := item] = ?h" by simp
  have A: "\<forall>i. 0 < i \<and> i < length ?h \<and> i \<noteq> ?pos \<longrightarrow>
      entry_depth ((?h[?pos := ?h ! ?pos]) ! parent_pos i) \<le> entry_depth ((?h[?pos := ?h ! ?pos]) ! i)"
  proof (intro allI impI)
    fix i assume "0 < i \<and> i < length ?h \<and> i \<noteq> ?pos"
    then have i: "0 < i" "i < length heap" by simp_all
    with parent_pos_less[OF i(1)] have "parent_pos i < length heap" by simp
    with i assms show "entry_depth ((?h[?pos := ?h ! ?pos]) ! parent_pos i)
        \<le> entry_depth ((?h[?pos := ?h ! ?pos]) ! i)"
      by (simp add: heap_ok_def nth_append)
  qed
  have B: "0 < ?pos \<longrightarrow> (\<forall>c. 0 < c \<and> c < length ?h \<and> parent_pos c = ?pos \<longrightarrow>
      entry_depth (?h ! parent_pos ?pos) \<le> entry_depth (?h ! c))"
  proof (intro allI impI)
    fix c assume "0 < ?pos" and "0 < c \<and> c < length ?h \<and> parent_pos c = ?pos"
    then have "0 < c" "c \<le> length heap" "parent_pos c = length heap" by simp_all
    with parent_pos_less[of c] show "entry_depth (?h ! parent_pos ?pos) \<le> entry_depth (?h ! c)"
      by simp
  qed
  have "heap_ok (siftdown_loop ?h 0 ?pos (?h ! ?pos))"
    by (rule siftdown_loop_heap[OF _ A B]) simp
  then show ?thesis by (simp add: heappush_def siftdown_def)
qed

lemma mset_heappush: "mset (heappush heap item) = add_mset item (mset heap)"
  using siftdown_loop_mset[of "length heap" "heap @ [item]" 0 item]
  by (simp add: heappush_def siftdown_def)

lemma heap_ok_root:
  "heap_ok h \<Longrightarrow> i < length h \<Longrightarrow> entry_depth (h ! 0) \<le> entry_depth (h ! i)"
proof (induction i rule: less_induct)
  case (less i)
  show ?case
  proof (cases "i = 0")
    case True then show ?thesis by simp
  next
    case False
    then have i0: "0 < i" by simp
    from parent_pos_less[OF i0] less.prems(2) have "parent_pos i < length h" by simp
    from less.IH[OF parent_pos_less[OF i0] less.prems(1) this]
    have "entry_depth (h ! 0) \<le> entry_depth (h ! parent_pos i)" .
    moreover from less.prems i0 have "entry_depth (h ! parent_pos i) \<le> entry_depth (h ! i)"
      by (simp add: heap_ok_def)
    ultimately show ?thesis by simp
  qed
qed



lemma heap_ok_prefix: "heap_ok (xs @ ys) \<Longrightarrow> heap_ok xs"
  unfolding heap_ok_def
proof (intro allI impI)
  fix i assume h: "\<forall>i. 0 < i \<and> i < length (xs @ ys) \<longrightarrow>
      entry_depth ((xs @ ys) ! parent_pos i) \<le> entry_depth ((xs @ ys) ! i)"
    and i: "0 < i \<and> i < length xs"
  then have "entry_depth ((xs @ ys) ! parent_pos i) \<le> entry_depth ((xs @ ys) ! i)" by simp
  moreover have "parent_pos i < length xs" using parent_pos_less[of i] i by simp
  ultimately show "entry_depth (xs ! parent_pos i) \<le> entry_depth (xs ! i)"
    using i by (simp add: nth_append)
qed

lemma heap_ok_siftup_root:
  assumes "heap_ok front" "front \<noteq> []"
  shows "heap_ok (siftup (front[0 := lastelt]) 0)
       \<and> mset (siftup (front[0 := lastelt]) 0) = mset (front[0 := lastelt])"
proof -
  let ?h = "front[0 := lastelt]"
  have len: "0 < length ?h" using assms(2) by simp
  obtain h1 p where loop: "siftup_loop ?h (length ?h) 0 (2 * 0 + 1) = (h1, p)"
    by (cases "siftup_loop ?h (length ?h) 0 (2 * 0 + 1)")
  have J1: "\<forall>i. 0 < i \<and> i < length ?h \<and> i \<noteq> 0 \<and> parent_pos i \<noteq> 0 \<longrightarrow>
      entry_depth (?h ! parent_pos i) \<le> entry_depth (?h ! i)"
    using assms(1) by (simp add: heap_ok_def)
  have J2: "0 < (0::nat) \<longrightarrow> (\<forall>c. 0 < c \<and> c < length ?h \<and> parent_pos c = 0 \<longrightarrow>
      entry_depth (?h ! parent_pos 0) \<le> entry_depth (?h ! c))"
    by simp
  from siftup_loop_hole[OF len refl refl J1 J2 loop]
  have l1: "length h1 = length ?h" and p: "p < length ?h"
    and hole: "\<forall>i. 0 < i \<and> i < length ?h \<and> i \<noteq> p \<longrightarrow>
        parent_pos i \<noteq> p \<and> entry_depth (h1 ! parent_pos i) \<le> entry_depth (h1 ! i)"
    by simp_all
  let ?v = "h1[p := lastelt]"
  have up: "siftup ?h 0 = siftdown_loop ?v 0 p lastelt"
    using loop p l1 len by (simp add: siftup_def siftdown_def Let_def)
  have pv: "p < length ?v" using p l1 by simp
  have A: "\<forall>i. 0 < i \<and> i < length ?v \<and> i \<noteq> p \<longrightarrow>
      entry_depth ((?v[p := lastelt]) ! parent_pos i) \<le> entry_depth ((?v[p := lastelt]) ! i)"
  proof (intro allI impI)
    fix i assume "0 < i \<and> i < length ?v \<and> i \<noteq> p"
    then have i: "0 < i" "i < length ?h" "i \<noteq> p" using l1 by simp_all
    with hole have "parent_pos i \<noteq> p" "entry_depth (h1 ! parent_pos i) \<le> entry_depth (h1 ! i)"
      by blast+
    with i show "entry_depth ((?v[p := lastelt]) ! parent_pos i) \<le> entry_depth ((?v[p := lastelt]) ! i)"
      by simp
  qed
  have B: "0 < p \<longrightarrow> (\<forall>c. 0 < c \<and> c < length ?v \<and> parent_pos c = p \<longrightarrow>
      entry_depth (?v ! parent_pos p) \<le> entry_depth (?v ! c))"
  proof (intro allI impI)
    fix c assume "0 < p" and c: "0 < c \<and> c < length ?v \<and> parent_pos c = p"
    then have "c \<noteq> p" using parent_pos_less[of c] by auto
    moreover from c l1 have "0 < c \<and> c < length ?h" by simp
    ultimately have "parent_pos c \<noteq> p" using hole[rule_format, of c] by simp
    with c show "entry_depth (?v ! parent_pos p) \<le> entry_depth (?v ! c)" by simp
  qed
  have ok: "heap_ok (siftdown_loop ?v 0 p lastelt)"
    by (rule siftdown_loop_heap[OF pv A B])
  have "mset (siftdown_loop ?v 0 p lastelt) = mset (?v[p := lastelt])"
    by (rule siftdown_loop_mset[OF pv])
  also have "\<dots> = mset (h1[p := lastelt])" by simp
  also have "\<dots> = mset (?h[0 := lastelt])"
    using siftup_loop_mset[OF len refl refl loop, of lastelt] by simp
  also have "\<dots> = mset ?h" by simp
  finally show ?thesis using ok unfolding up by simp
qed

lemma heappop_heap:
  assumes "heap_ok heap" and "heappop heap = Some (e, heap')"
  shows "heap_ok heap' \<and> mset heap = add_mset e (mset heap')
       \<and> (\<forall>x \<in> set heap. entry_depth e \<le> entry_depth x)"
proof (cases heap rule: rev_cases)
  case Nil
  with assms(2) show ?thesis by (simp add: heappop_def)
next
  case (snoc front lastelt)
  have min: "\<forall>x \<in> set heap. entry_depth (heap ! 0) \<le> entry_depth x"
    using heap_ok_root[OF assms(1)] by (auto simp: in_set_conv_nth)
  show ?thesis
  proof (cases "front = []")
    case True
    with snoc assms(2) have "e = lastelt" "heap' = []" by (simp_all add: heappop_def)
    with snoc True show ?thesis by (simp add: heap_ok_def)
  next
    case False
    with snoc assms(2) have e: "e = front ! 0" and h': "heap' = siftup (front[0 := lastelt]) 0"
      by (simp_all add: heappop_def Let_def)
    have okf: "heap_ok front" using assms(1) snoc heap_ok_prefix by simp
    from heap_ok_siftup_root[OF okf False, of lastelt]
    have ok: "heap_ok heap'" and ms: "mset heap' = mset (front[0 := lastelt])"
      unfolding h' by simp_all
    have f0: "front ! 0 \<in># mset front" using False by (simp add: nth_mem)
    have "mset (front[0 := lastelt]) = add_mset lastelt (mset front - {#front ! 0#})"
      using False by (simp add: mset_update)
    with f0 have "add_mset (front ! 0) (mset (front[0 := lastelt])) = add_mset lastelt (mset front)"
      by simp
    with ms e snoc have m: "mset heap = add_mset e (mset heap')" by simp
    have "heap ! 0 = e" using snoc False e by (simp add: nth_append)
    with min ok m show ?thesis by simp
  qed
qed

lemma get_next_loop_heap:
  assumes "heap_ok q" and "get_next_loop lib vis q = (r, q')"
  shows "heap_ok q' \<and> mset q' \<subseteq># mset q
       \<and> (\<forall>u d. r = Some (u, d) \<longrightarrow>
             add_mset (QueueEntry d u) (mset q') \<subseteq># mset q
             \<and> (\<forall>e \<in> set q'. d \<le> entry_depth e))"
  using assms
proof (induction lib vis q arbitrary: r q' rule: get_next_loop.induct)
  case (1 lib vis q)
  show ?case
  proof (cases "q = []")
    case True
    with "1.prems"(2) have "r = None" "q' = []"
      by (subst (asm) get_next_loop.simps, simp)+
    then show ?thesis by (simp add: heap_ok_def)
  next
    case False
    then obtain e q1 where pop: "heappop q = Some (e, q1)"
      by (cases "heappop q") (auto simp: heappop_def Let_def split: if_splits)
    from heappop_heap[OF "1.prems"(1) pop]
    have ok1: "heap_ok q1" and m1: "mset q = add_mset e (mset q1)"
      and min: "\<forall>x \<in> set q. entry_depth e \<le> entry_depth x"
      by simp_all
    show ?thesis
    proof (cases "hash lib (entry_url e) \<in> vis")
      case True
      with False pop "1.prems"(2) have rec: "get_next_loop lib vis q1 = (r, q')"
        by (subst (asm) get_next_loop.simps) simp
      from "1.IH"[OF False pop refl True ok1 rec]
      have IH: "heap_ok q'" "mset q' \<subseteq># mset q1"
        "\<forall>u d. r = Some (u, d) \<longrightarrow>
             add_mset (QueueEntry d u) (mset q') \<subseteq># mset q1 \<and> (\<forall>e \<in> set q'. d \<le> entry_depth e)"
        by simp_all
      have sub: "mset q1 \<subseteq># mset q" unfolding m1 by simp
      have "add_mset (QueueEntry d u) (mset q') \<subseteq># mset q \<and> (\<forall>e \<in> set q'. d \<le> entry_depth e)"
        if "r = Some (u, d)" for u d
      proof -
        from IH(3)[rule_format, OF that]
        have a: "add_mset (QueueEntry d u) (mset q') \<subseteq># mset q1"
          and b: "\<forall>e \<in> set q'. d \<le> entry_depth e"
          by simp_all
        from subset_mset.order_trans[OF a sub] b show ?thesis by simp
      qed
      moreover have "mset q' \<subseteq># mset q" by (rule subset_mset.order_trans[OF IH(2) sub])
      ultimately show ?thesis using IH(1) by simp
    next
      case nv: False
      with False pop "1.prems"(2) have r: "r = Some (entry_url e, entry_depth e)" and q': "q' = q1"
        by (subst (asm) get_next_loop.simps, simp)+
      from arg_cong[OF m1, of set_mset] have "set q1 \<subseteq> set q" by auto
      with min have "\<forall>x \<in> set q1. entry_depth e \<le> entry_depth x" by blast
      with ok1 m1 show ?thesis unfolding r q' by simp
    qed
  qed
qed

lemma add_url_cases:
  assumes "add_url lib s u d = (r, s')"
  shows "(r = Inr True \<and> (\<exists>n. s' = s\<lparr>queue := heappush (queue s) (QueueEntry d n),
                                        enqueued := insert (hash lib n) (enqueued s)\<rparr>))
       \<or> (r \<noteq> Inr True \<and> s' = s)"
  using assms
  by (auto simp: add_url_def Let_def split: option.splits if_splits sum.splits)

lemma set_heappush: "set (heappush heap item) = insert item (set heap)"
  using arg_cong[OF mset_heappush[of heap item], of set_mset] by simp

lemma get_next_heap:
  assumes "heap_ok (queue s)" and "get_next lib s = (r, s')"
  shows "heap_ok (queue s') \<and> set (queue s') \<subseteq> set (queue s)
       \<and> (\<forall>u d. r = Some (u, d) \<longrightarrow>
             QueueEntry d u \<in> set (queue s) \<and> (\<forall>e \<in> set (queue s'). d \<le> entry_depth e))"
proof -
  obtain q' where loop: "get_next_loop lib (visited s) (queue s) = (r, q')" and s': "s' = s\<lparr>queue := q'\<rparr>"
    using assms(2) by (auto simp: get_next_def split: prod.splits)
  from get_next_loop_heap[OF assms(1) loop]
  have ok: "heap_ok q'" and sub: "mset q' \<subseteq># mset (queue s)"
    and ret: "\<forall>u d. r = Some (u, d) \<longrightarrow>
             add_mset (QueueEntry d u) (mset q') \<subseteq># mset (queue s)
             \<and> (\<forall>e \<in> set q'. d \<le> entry_depth e)"
    by simp_all
  have "set q' \<subseteq> set (queue s)" using set_mset_mono[OF sub] by simp
  moreover have "QueueEntry d u \<in> set (queue s) \<and> (\<forall>e \<in> set q'. d \<le> entry_depth e)"
    if "r = Some (u, d)" for u d
  proof -
    from ret[rule_format, OF that]
    have a: "add_mset (QueueEntry d u) (mset q') \<subseteq># mset (queue s)"
      and b: "\<forall>e \<in> set q'. d \<le> entry_depth e" by simp_all
    from set_mset_mono[OF a] b show ?thesis by simp
  qed
  ultimately show ?thesis using ok unfolding s' by simp
qed

lemma call_heap_ok:
  assumes "heap_ok (queue s)" and "call lib s c = (out, s')"
  shows "heap_ok (queue s')"
proof (cases c)
  case (Add_url u d)
  with assms(2) obtain r where "add_url lib s u d = (r, s')" by (auto split: prod.splits)
  from add_url_cases[OF this] assms(1) heap_ok_siftdown_append show ?thesis by auto
next
  case Get_next
  with assms(2) obtain r where "get_next lib s = (r, s')" by (auto split: prod.splits)
  from get_next_heap[OF assms(1) this] show ?thesis by simp
next
  case (Mark_visited u)
  with assms show ?thesis by (auto simp: mark_visited_def)
qed

lemma calls_heap_ok:
  "heap_ok (queue s0) \<Longrightarrow> (s, c, out, s') \<in> set (calls lib s0 cs) \<Longrightarrow> heap_ok (queue s)"
proof (induction cs arbitrary: s0)
  case Nil then show ?case by simp
next
  case (Cons c0 cs)
  obtain out0 s1 where c0: "call lib s0 c0 = (out0, s1)" by (cases "call lib s0 c0")
  from call_heap_ok[OF Cons.prems(1) c0] have ok1: "heap_ok (queue s1)" .
  from Cons.prems(2) c0 have "(s, c, out, s') = (s0, c0, out0, s1) \<or> (s, c, out, s') \<in> set (calls lib s1 cs)"
    by simp
  then show ?case
  proof
    assume "(s, c, out, s') = (s0, c0, out0, s1)" with Cons.prems(1) show ?thesis by simp
  next
    assume "(s, c, out, s') \<in> set (calls lib s1 cs)"
    from Cons.IH[OF ok1 this] show ?thesis .
  qed
qed

lemma sorted_from:
  assumes "heap_ok (queue s0)"
    and "\<forall>l. lo = Some l \<longrightarrow> (\<forall>e \<in> set (queue s0). l \<le> entry_depth e)"
    and "adds_not_below lo (calls lib s0 cs)"
  shows "sorted (returned_depths (calls lib s0 cs))
       \<and> (\<forall>l. lo = Some l \<longrightarrow> (\<forall>d \<in> set (returned_depths (calls lib s0 cs)). l \<le> d))"
  using assms
proof (induction cs arbitrary: s0 lo)
  case Nil show ?case by (simp add: returned_depths_def)
next
  case (Cons c cs)
  note ok = Cons.prems(1) and bound = Cons.prems(2) and disc = Cons.prems(3)
  show ?case
  proof (cases c)
    case (Add_url u d)
    obtain r s1 where a: "add_url lib s0 u d = (r, s1)" by (cases "add_url lib s0 u d")
    have run: "calls lib s0 (c # cs) = (s0, Add_url u d, Added r, s1) # calls lib s1 cs"
      by (simp add: Add_url a)
    have ret: "returned_depths (calls lib s0 (c # cs)) = returned_depths (calls lib s1 cs)"
      unfolding run by (simp add: returned_depths_def)
    from add_url_cases[OF a] show ?thesis
    proof
      assume "r = Inr True \<and> (\<exists>n. s1 = s0\<lparr>queue := heappush (queue s0) (QueueEntry d n),
                                        enqueued := insert (hash lib n) (enqueued s0)\<rparr>)"
      then obtain n where r: "r = Inr True"
        and q1: "queue s1 = heappush (queue s0) (QueueEntry d n)" by auto
      from disc have d: "case lo of None \<Rightarrow> True | Some l \<Rightarrow> l \<le> d"
        and rest: "adds_not_below lo (calls lib s1 cs)"
        unfolding run r by simp_all
      have ok1: "heap_ok (queue s1)" unfolding q1 by (rule heap_ok_siftdown_append[OF ok])
      have b1: "\<forall>l. lo = Some l \<longrightarrow> (\<forall>e \<in> set (queue s1). l \<le> entry_depth e)"
        using bound d unfolding q1 set_heappush by auto
      from Cons.IH[OF ok1 b1 rest] show ?thesis unfolding ret .
    next
      assume "r \<noteq> Inr True \<and> s1 = s0"
      then have r: "r \<noteq> Inr True" and s1: "s1 = s0" by simp_all
      from disc r have rest: "adds_not_below lo (calls lib s1 cs)"
        unfolding run by (cases r) (auto simp: s1)
      from Cons.IH[OF _ _ rest] ok bound show ?thesis unfolding ret s1 by simp
    qed
  next
    case Get_next
    obtain r s1 where g: "get_next lib s0 = (r, s1)" by (cases "get_next lib s0")
    have run: "calls lib s0 (c # cs) = (s0, Get_next, Got r, s1) # calls lib s1 cs"
      by (simp add: Get_next g)
    from get_next_heap[OF ok g]
    have ok1: "heap_ok (queue s1)" and sub: "set (queue s1) \<subseteq> set (queue s0)"
      and ret: "\<forall>u d. r = Some (u, d) \<longrightarrow>
             QueueEntry d u \<in> set (queue s0) \<and> (\<forall>e \<in> set (queue s1). d \<le> entry_depth e)"
      by simp_all
    show ?thesis
    proof (cases r)
      case None
      have rd: "returned_depths (calls lib s0 (c # cs)) = returned_depths (calls lib s1 cs)"
        unfolding run None by (simp add: returned_depths_def)
      from disc have rest: "adds_not_below lo (calls lib s1 cs)" unfolding run None by simp
      have b1: "\<forall>l. lo = Some l \<longrightarrow> (\<forall>e \<in> set (queue s1). l \<le> entry_depth e)"
        using bound sub by blast
      from Cons.IH[OF ok1 b1 rest] show ?thesis unfolding rd .
    next
      case (Some ud)
      obtain u d where ud: "ud = (u, d)" by (cases ud)
      have rd: "returned_depths (calls lib s0 (c # cs)) = d # returned_depths (calls lib s1 cs)"
        unfolding run Some ud by (simp add: returned_depths_def)
      from disc have rest: "adds_not_below (Some d) (calls lib s1 cs)" unfolding run Some ud by simp
      from ret Some ud have inq: "QueueEntry d u \<in> set (queue s0)"
        and b1: "\<forall>l. Some d = Some l \<longrightarrow> (\<forall>e \<in> set (queue s1). l \<le> entry_depth e)"
        by simp_all
      from Cons.IH[OF ok1 b1 rest]
      have s: "sorted (returned_depths (calls lib s1 cs))"
        and ge: "\<forall>x \<in> set (returned_depths (calls lib s1 cs)). d \<le> x" by simp_all
      have lo_d: "l \<le> d" if "lo = Some l" for l
        using bound that inq by fastforce
      have "l \<le> x" if "lo = Some l" "x \<in> set (returned_depths (calls lib s1 cs))" for l x
        using lo_d[OF that(1)] ge that(2) by fastforce
      with s ge lo_d show ?thesis unfolding rd by auto
    qed
  next
    case (Mark_visited u)
    have run: "calls lib s0 (c # cs) =
        (s0, Mark_visited u, Marked, mark_visited lib s0 u) # calls lib (mark_visited lib s0 u) cs"
      by (simp add: Mark_visited)
    have rd: "returned_depths (calls lib s0 (c # cs))
        = returned_depths (calls lib (mark_visited lib s0 u) cs)"
      unfolding run by (simp add: returned_depths_def)
    from disc have rest: "adds_not_below lo (calls lib (mark_visited lib s0 u) cs)"
      unfolding run by simp
    have q: "queue (mark_visited lib s0 u) = queue s0" by (simp add: mark_visited_def)
    from Cons.IH[OF _ _ rest] ok bound show ?thesis unfolding rd q by simp
  qed
qed

lemma heap_ok_init: "heap_ok (queue (URLFrontier_init domains depth_limit))"
  by (simp add: URLFrontier_init_def heap_ok_def)

text \<open>
  Claim C3, as stated: the depths returned by successive \<^verbatim>\<open>get_next\<close> calls never
  decrease, and entries of equal depth come out in the order they went in. Four URLs
  enqueued at depth 1 in the order A, B, C, D come out in the order A, C, B, D; and a
  URL enqueued at depth 1 after a URL of depth 2 was returned comes out next, at the
  smaller depth.
\<close>

theorem get_next_order_counterexample:
  "returned (calls example_lib (URLFrontier_init [''h''] 5)
      [Add_url ''http://h/A'' 1, Add_url ''http://h/B'' 1, Add_url ''http://h/C'' 1,
       Add_url ''http://h/D'' 1, Get_next, Get_next, Get_next, Get_next])
     = [(''http://h/A'', 1), (''http://h/C'', 1), (''http://h/B'', 1), (''http://h/D'', 1)]
   \<and> returned (calls example_lib (URLFrontier_init [''h''] 5)
      [Add_url ''http://h/A'' 2, Get_next, Add_url ''http://h/B'' 1, Get_next])
     = [(''http://h/A'', 2), (''http://h/B'', 1)]"
  by code_simp

text \<open>
  Claim C3, amended. In every run of calls on a new frontier, each \<^verbatim>\<open>get_next\<close> returns
  an entry of the queue that is no deeper than any entry it leaves in the queue. When
  no \<^verbatim>\<open>add_url\<close> of the run enqueues below the depth returned by the latest
  \<^verbatim>\<open>get_next\<close> before it, the depths returned by successive \<^verbatim>\<open>get_next\<close> calls are
  non-decreasing. Nothing is promised about the order among entries of equal depth.
\<close>

theorem get_next_depth_order:
  "(\<forall>(s, c, out, s') \<in> set (calls lib (URLFrontier_init domains depth_limit) cs).
      \<forall>u d. out = Got (Some (u, d)) \<longrightarrow>
        QueueEntry d u \<in> set (queue s) \<and> (\<forall>e \<in> set (queue s'). d \<le> entry_depth e))
   \<and> (adds_not_below None (calls lib (URLFrontier_init domains depth_limit) cs) \<longrightarrow>
        sorted (returned_depths (calls lib (URLFrontier_init domains depth_limit) cs)))"
proof (intro conjI impI)
  let ?s0 = "URLFrontier_init domains depth_limit"
  show "\<forall>(s, c, out, s') \<in> set (calls lib ?s0 cs).
      \<forall>u d. out = Got (Some (u, d)) \<longrightarrow>
        QueueEntry d u \<in> set (queue s) \<and> (\<forall>e \<in> set (queue s'). d \<le> entry_depth e)"
  proof (clarify)
    fix s c s' u d
    assume step: "(s, c, Got (Some (u, d)), s') \<in> set (calls lib ?s0 cs)"
    from calls_heap_ok[OF heap_ok_init step] have ok: "heap_ok (queue s)" .
    from calls_are_calls[OF step] have "call lib s c = (Got (Some (u, d)), s')" .
    then have "get_next lib s = (Some (u, d), s')"
      by (cases c) (auto split: prod.splits)
    from get_next_heap[OF ok this]
    show "QueueEntry d u \<in> set (queue s) \<and> (\<forall>e \<in> set (queue s'). d \<le> entry_depth e)" by simp
  qed
next
  let ?s0 = "URLFrontier_init domains depth_limit"
  assume "adds_not_below None (calls lib ?s0 cs)"
  from sorted_from[OF heap_ok_init _ this] show "sorted (returned_depths (calls lib ?s0 cs))"
    by simp
qed


theorem get_next_depth_order_witness:
  "(snd (add_url example_lib (URLFrontier_init [''h''] 3) ''http://h/'' 0), Get_next,
      Got (Some (''http://h/'', 0)), URLFrontier_init [''h''] 3\<lparr>enqueued := {''http://h/''}\<rparr>)
     \<in> set (calls example_lib (URLFrontier_init [''h''] 3) [Add_url ''http://h/'' 0, Get_next])
   \<and> QueueEntry 0 ''http://h/''
       \<in> set (queue (snd (add_url example_lib (URLFrontier_init [''h''] 3) ''http://h/'' 0)))
   \<and> adds_not_below None (calls example_lib (URLFrontier_init [''h''] 3)
         [Add_url ''http://h/'' 0, Get_next, Add_url ''http://h/b'' 1, Add_url ''http://h/a'' 1,
          Get_next, Get_next])
   \<and> sorted (returned_depths (calls example_lib (URLFrontier_init [''h''] 3)
         [Add_url ''http://h/'' 0, Get_next, Add_url ''http://h/b'' 1, Add_url ''http://h/a'' 1,
          Get_next, Get_next]))"
proof -
  let ?s0 = "URLFrontier_init [''h''] 3"
  let ?s1 = "snd (add_url example_lib ?s0 ''http://h/'' 0)"
  let ?s2 = "?s0\<lparr>enqueued := {''http://h/''}\<rparr>"
  let ?cs = "[Add_url ''http://h/'' 0, Get_next, Add_url ''http://h/b'' 1, Add_url ''http://h/a'' 1,
          Get_next, Get_next]"
  have step: "(?s1, Get_next, Got (Some (''http://h/'', 0)), ?s2)
      \<in> set (calls example_lib ?s0 [Add_url ''http://h/'' 0, Get_next])"
    by code_simp
  have disc: "adds_not_below None (calls example_lib ?s0 ?cs)"
    by code_simp
  from get_next_depth_order[of example_lib "[''h'']" 3 "[Add_url ''http://h/'' 0, Get_next]"] step
  have "QueueEntry 0 ''http://h/'' \<in> set (queue ?s1)" by blast
  moreover from get_next_depth_order[of example_lib "[''h'']" 3 ?cs] disc
  have "sorted (returned_depths (calls example_lib ?s0 ?cs))" by blast
  ultimately show ?thesis using step disc by blast
qed

end
